theory Spec2Isabelle
  imports Main "HOL-Library.Char_ord" "HOL-Library.List_Lexorder"
begin

section \<open>Promises and job outcomes\<close>

text \<open>
  The coordination primitives of \<^verbatim>\<open>common_util.ts\<close> run on a single-threaded event loop.
  Each primitive is embedded as a state record together with one function per piece of
  code that runs without suspension: the synchronous part of a public method, and the
  continuation that resumes after an \<^verbatim>\<open>await\<close>.  The environment (callers, the jobs
  themselves, the event loop) is a list of events; \<open>run\<close> folds the step function over it.

  A promise handed to a caller is a cell of a heap of settlements.  As in JavaScript,
  only the first call of \<^verbatim>\<open>resolve\<close>/\<^verbatim>\<open>reject\<close> on a promise has an effect.
\<close>

datatype ('v, 'e) settlement = Pending | Fulfilled 'v | Rejected 'e

datatype ('v, 'e) outcome = Returned 'v | Threw 'e

type_synonym ('v, 'e) heap = "('v, 'e) settlement list"

definition settle :: "nat \<Rightarrow> ('v, 'e) settlement \<Rightarrow> ('v, 'e) heap \<Rightarrow> ('v, 'e) heap" where
  "settle p r h = (if p < length h \<and> h ! p = Pending then h[p := r] else h)"

text \<open>What an observer of the job bodies sees: a body begins, a body has ended.\<close>

datatype obs = Started nat | Finished nat

text \<open>
  A queue entry: the job (an opaque closure, named by a label the caller chooses) and the
  \<^verbatim>\<open>resolve\<close>/\<^verbatim>\<open>reject\<close> pair of the promise returned to the caller (the index of
  that promise in the heap).
\<close>

record qitem =
  job :: nat
  pid :: nat

section \<open>Mutex\<close>

text \<open>
  \<^verbatim>\<open>class Mutex<T>\<close>: the fields \<^verbatim>\<open>queue\<close> and \<^verbatim>\<open>running\<close>, and the
  part of the run-time state the class relies on: the suspended activations of
  \<^verbatim>\<open>handle\<close> (each awaiting the job of its own \<^verbatim>\<open>task\<close>), the callbacks given to
  \<^verbatim>\<open>setImmediate\<close> and not yet run, the promises returned by \<^verbatim>\<open>runExclusive\<close>,
  and the observations made so far.
\<close>

record ('v, 'e) mutex =
  mx_queue :: "qitem list"
  mx_running :: bool
  mx_awaiting :: "qitem list"
  mx_immediates :: "(nat \<times> ('v, 'e) settlement) list"
  mx_promises :: "('v, 'e) heap"
  mx_trace :: "obs list"

definition mx_init :: "('v, 'e) mutex" where
  "mx_init = \<lparr>mx_queue = [], mx_running = False, mx_awaiting = [], mx_immediates = [],
     mx_promises = [], mx_trace = []\<rparr>"

text \<open>
  \<^verbatim>\<open>handle()\<close> up to its \<^verbatim>\<open>await\<close>: return when running or when the queue is empty;
  otherwise set \<^verbatim>\<open>running\<close>, shift the oldest entry and call its job.
\<close>

definition mx_handle :: "('v, 'e) mutex \<Rightarrow> ('v, 'e) mutex" where
  "mx_handle s =
     (if mx_running s \<or> mx_queue s = [] then s
      else let task = hd (mx_queue s) in
        s\<lparr>mx_running := True,
          mx_queue := tl (mx_queue s),
          mx_awaiting := mx_awaiting s @ [task],
          mx_trace := mx_trace s @ [Started (job task)]\<rparr>)"

text \<open>
  \<^verbatim>\<open>handle()\<close> from its \<^verbatim>\<open>await\<close> on: the job of \<open>task\<close> has returned or thrown;
  the settlement of the caller's promise is handed to \<^verbatim>\<open>setImmediate\<close>, and the
  \<^verbatim>\<open>finally\<close> block clears \<^verbatim>\<open>running\<close> and calls \<^verbatim>\<open>handle()\<close> again.
\<close>

definition mx_resume :: "qitem \<Rightarrow> ('v, 'e) outcome \<Rightarrow> ('v, 'e) mutex \<Rightarrow> ('v, 'e) mutex" where
  "mx_resume task out s =
     (let s1 = s\<lparr>mx_awaiting := remove1 task (mx_awaiting s),
                 mx_trace := mx_trace s @ [Finished (job task)],
                 mx_immediates := mx_immediates s @
                   [(pid task, case out of Returned v \<Rightarrow> Fulfilled v | Threw e \<Rightarrow> Rejected e)]\<rparr>
      in mx_handle (s1\<lparr>mx_running := False\<rparr>))"

text \<open>\<^verbatim>\<open>runExclusive(job)\<close>: a new promise, the entry pushed, \<^verbatim>\<open>handle()\<close> called.\<close>

definition runExclusive :: "nat \<Rightarrow> ('v, 'e) mutex \<Rightarrow> ('v, 'e) mutex" where
  "runExclusive j s =
     mx_handle (s\<lparr>mx_promises := mx_promises s @ [Pending],
                  mx_queue := mx_queue s @ [\<lparr>job = j, pid = length (mx_promises s)\<rparr>]\<rparr>)"

text \<open>
  The events of a mutex: a call of \<^verbatim>\<open>runExclusive\<close>; the job awaited by the activation
  whose entry has promise \<open>p\<close> settles (no effect when no activation awaits such a job);
  the event loop runs the oldest \<^verbatim>\<open>setImmediate\<close> callback.
\<close>

datatype ('v, 'e) mx_event = RunExclusive nat | JobDone nat "('v, 'e) outcome" | Immediate

fun mx_step :: "('v, 'e) mutex \<Rightarrow> ('v, 'e) mx_event \<Rightarrow> ('v, 'e) mutex" where
  "mx_step s (RunExclusive j) = runExclusive j s"
| "mx_step s (JobDone p out) =
     (case find (\<lambda>t. pid t = p) (mx_awaiting s) of
        None \<Rightarrow> s
      | Some task \<Rightarrow> mx_resume task out s)"
| "mx_step s Immediate =
     (case mx_immediates s of
        [] \<Rightarrow> s
      | (p, r) # rest \<Rightarrow> s\<lparr>mx_immediates := rest, mx_promises := settle p r (mx_promises s)\<rparr>)"

definition mx_run :: "('v, 'e) mx_event list \<Rightarrow> ('v, 'e) mutex" where
  "mx_run evs = foldl mx_step mx_init evs"

text \<open>The jobs submitted by a list of events, in the order of the calls.\<close>

fun submitted :: "('v, 'e) mx_event list \<Rightarrow> nat list" where
  "submitted [] = []"
| "submitted (RunExclusive j # evs) = j # submitted evs"
| "submitted (_ # evs) = submitted evs"

text \<open>
  A trace is serial when it reads begin, end, begin, end, ... with each end that of the
  body begun just before; it may stop after a begin (a body is executing).
\<close>

fun serial :: "obs list \<Rightarrow> bool" where
  "serial [] = True"
| "serial [Started j] = True"
| "serial (Started j # Finished k # tr) = (j = k \<and> serial tr)"
| "serial _ = False"

text \<open>The jobs whose bodies have begun, in the order in which they began.\<close>

fun begun :: "obs list \<Rightarrow> nat list" where
  "begun [] = []"
| "begun (Started j # tr) = j # begun tr"
| "begun (Finished j # tr) = begun tr"

subsection \<open>The invariant of the mutex\<close>

fun closed_trace :: "obs list \<Rightarrow> bool" where
  "closed_trace [] = True"
| "closed_trace (Started j # Finished k # tr) = (j = k \<and> closed_trace tr)"
| "closed_trace _ = False"

definition mx_inv :: "('v, 'e) mutex \<Rightarrow> bool" where
  "mx_inv s =
     ((mx_awaiting s = [] \<and> \<not> mx_running s \<and> mx_queue s = [] \<and> closed_trace (mx_trace s)) \<or>
      (\<exists>t tr. mx_awaiting s = [t] \<and> mx_running s \<and> mx_trace s = tr @ [Started (job t)] \<and>
         closed_trace tr))"

lemma closed_trace_append:
  "closed_trace tr \<Longrightarrow> closed_trace tr' \<Longrightarrow> closed_trace (tr @ tr')"
  by (induction tr rule: closed_trace.induct) auto

lemma closed_serial: "closed_trace tr \<Longrightarrow> serial tr"
  by (induction tr rule: closed_trace.induct) auto

lemma closed_serial_begin: "closed_trace tr \<Longrightarrow> serial (tr @ [Started j])"
  by (induction tr rule: closed_trace.induct) auto

lemma begun_append: "begun (tr @ tr') = begun tr @ begun tr'"
  by (induction tr rule: begun.induct) auto

lemma submitted_append: "submitted (evs @ evs') = submitted evs @ submitted evs'"
  by (induction evs rule: submitted.induct) auto

lemma mx_inv_init: "mx_inv mx_init"
  by (simp add: mx_inv_def mx_init_def)

lemma mx_inv_runExclusive: "mx_inv s \<Longrightarrow> mx_inv (runExclusive j s)"
  unfolding mx_inv_def runExclusive_def mx_handle_def
  by (auto simp: Let_def)

lemma mx_inv_resume:
  assumes "mx_inv s" and "find (\<lambda>t. pid t = p) (mx_awaiting s) = Some task"
  shows "mx_inv (mx_resume task out s)"
proof -
  from assms(2) have mem: "task \<in> set (mx_awaiting s)"
    by (auto simp: find_Some_iff)
  with assms(1) obtain tr where aw: "mx_awaiting s = [task]"
    and tr: "mx_trace s = tr @ [Started (job task)]" and cl: "closed_trace tr"
    unfolding mx_inv_def by auto
  have cl2: "closed_trace (tr @ [Started (job task), Finished (job task)])"
    using cl by (simp add: closed_trace_append)
  show ?thesis
  proof (cases "mx_queue s")
    case Nil
    with aw tr cl2 show ?thesis
      unfolding mx_inv_def mx_resume_def mx_handle_def by (simp add: Let_def)
  next
    case (Cons q qs)
    with aw tr cl2 show ?thesis
      unfolding mx_inv_def mx_resume_def mx_handle_def by (simp add: Let_def)
  qed
qed

lemma mx_inv_step: "mx_inv s \<Longrightarrow> mx_inv (mx_step s ev)"
proof (cases ev)
  case (RunExclusive j)
  assume "mx_inv s"
  with RunExclusive show ?thesis by (simp add: mx_inv_runExclusive)
next
  case (JobDone p out)
  assume "mx_inv s"
  with JobDone show ?thesis
    by (auto simp: mx_inv_resume split: option.splits)
next
  case Immediate
  assume "mx_inv s"
  with Immediate show ?thesis
    by (auto simp: mx_inv_def split: list.splits)
qed

lemma mx_inv_foldl: "mx_inv s \<Longrightarrow> mx_inv (foldl mx_step s evs)"
  by (induction evs arbitrary: s) (auto simp: mx_inv_step)

lemma mx_inv_run: "mx_inv (mx_run evs)"
  by (simp add: mx_run_def mx_inv_foldl mx_inv_init)

lemma mx_fifo_step:
  "begun (mx_trace (mx_step s ev)) @ map job (mx_queue (mx_step s ev)) =
     begun (mx_trace s) @ map job (mx_queue s) @ submitted [ev]"
proof (cases ev)
  case (RunExclusive j)
  then show ?thesis
    by (cases "mx_queue s") (auto simp: runExclusive_def mx_handle_def Let_def begun_append)
next
  case (JobDone p out)
  then show ?thesis
    by (cases "mx_queue s")
      (auto simp: mx_resume_def mx_handle_def Let_def begun_append split: option.splits)
next
  case Immediate
  then show ?thesis by (auto split: list.splits)
qed

lemma mx_fifo_foldl:
  "begun (mx_trace (foldl mx_step s evs)) @ map job (mx_queue (foldl mx_step s evs)) =
     begun (mx_trace s) @ map job (mx_queue s) @ submitted evs"
proof (induction evs arbitrary: s)
  case Nil
  show ?case by simp
next
  case (Cons ev evs)
  have "submitted (ev # evs) = submitted [ev] @ submitted evs"
    using submitted_append [of "[ev]" evs] by simp
  with Cons [of "mx_step s ev"] mx_fifo_step [of s ev] show ?case by simp
qed

lemma mx_inv_serial: "mx_inv s \<Longrightarrow> length (mx_awaiting s) \<le> 1 \<and> serial (mx_trace s)"
  unfolding mx_inv_def by (auto simp: closed_serial closed_serial_begin)

section \<open>Properties of Mutex\<close>

subsection \<open>Running the queue to its end\<close>
text \<open>The environment lets the job that is running settle with the given outcome.\<close>

definition complete_running :: "('v, 'e) mutex \<Rightarrow> ('v, 'e) outcome \<Rightarrow> ('v, 'e) mutex" where
  "complete_running s out =
     (case mx_awaiting s of [] \<Rightarrow> s | t # _ \<Rightarrow> mx_step s (JobDone (pid t) out))"

text \<open>The trace of the given jobs run one after the other, each to its end.\<close>

fun run_of :: "nat list \<Rightarrow> obs list" where
  "run_of [] = []"
| "run_of (j # js) = Started j # Finished j # run_of js"

lemma mx_inv_busy_queue: "mx_inv s \<Longrightarrow> mx_queue s \<noteq> [] \<Longrightarrow> mx_awaiting s \<noteq> []"
  unfolding mx_inv_def by auto

lemma mx_idle_starts:
  assumes "mx_inv s" and "mx_awaiting s = []"
  shows "mx_awaiting (runExclusive j s) = [\<lparr>job = j, pid = length (mx_promises s)\<rparr>] \<and>
     mx_queue (runExclusive j s) = [] \<and>
     mx_trace (runExclusive j s) = mx_trace s @ [Started j]"
proof -
  from assms have "\<not> mx_running s" "mx_queue s = []" unfolding mx_inv_def by auto
  with assms(2) show ?thesis by (simp add: runExclusive_def mx_handle_def Let_def)
qed

lemma mx_done_next:
  assumes "mx_awaiting s = [t]" and "mx_queue s = q # qs"
  shows "mx_awaiting (mx_step s (JobDone (pid t) out)) = [q] \<and>
     mx_queue (mx_step s (JobDone (pid t) out)) = qs \<and>
     mx_trace (mx_step s (JobDone (pid t) out)) = mx_trace s @ [Finished (job t), Started (job q)]"
  using assms by (simp add: mx_resume_def mx_handle_def Let_def)

lemma mx_done_last:
  assumes "mx_awaiting s = [t]" and "mx_queue s = []"
  shows "mx_awaiting (mx_step s (JobDone (pid t) out)) = [] \<and>
     mx_queue (mx_step s (JobDone (pid t) out)) = [] \<and>
     mx_trace (mx_step s (JobDone (pid t) out)) = mx_trace s @ [Finished (job t)]"
  using assms by (simp add: mx_resume_def mx_handle_def Let_def)

lemma mx_drain:
  assumes "mx_awaiting s = [t]" and "length outs = Suc (length (mx_queue s))"
  shows "mx_awaiting (foldl complete_running s outs) = [] \<and>
     mx_queue (foldl complete_running s outs) = [] \<and>
     mx_trace (foldl complete_running s outs) =
       mx_trace s @ Finished (job t) # run_of (map job (mx_queue s))"
  using assms
proof (induction outs arbitrary: s t)
  case Nil
  then show ?case by simp
next
  case (Cons out outs)
  have step: "complete_running s out = mx_step s (JobDone (pid t) out)"
    using Cons.prems(1) by (simp add: complete_running_def)
  show ?case
  proof (cases "mx_queue s")
    case Nil
    with Cons.prems(2) have "outs = []" by simp
    with mx_done_last [OF Cons.prems(1) Nil, of out] Nil step show ?thesis by simp
  next
    case (Cons q qs)
    note nx = mx_done_next [OF Cons.prems(1) Cons, of out]
    from nx have aw: "mx_awaiting (complete_running s out) = [q]" by (simp add: step)
    from nx Cons \<open>length (out # outs) = Suc (length (mx_queue s))\<close>
    have len: "length outs = Suc (length (mx_queue (complete_running s out)))"
      by (simp add: step)
    from Cons.IH [OF aw len] nx Cons show ?thesis by (simp add: step)
  qed
qed

lemma mx_submit_all:
  fixes s :: "('v, 'e) mutex"
  assumes "s = mx_run (map RunExclusive (j # js))"
  shows "mx_awaiting s = [\<lparr>job = j, pid = 0\<rparr>] \<and> map job (mx_queue s) = js \<and>
     mx_trace s = [Started j]"
  using assms
proof (induction js arbitrary: s rule: rev_induct)
  case Nil
  then show ?case by (simp add: mx_run_def mx_init_def runExclusive_def mx_handle_def Let_def)
next
  case (snoc k js)
  let ?t = "mx_run (map RunExclusive (j # js)) :: ('v, 'e) mutex"
  have inv: "mx_inv ?t" by (rule mx_inv_run)
  from snoc.IH [of ?t] have t: "mx_awaiting ?t = [\<lparr>job = j, pid = 0\<rparr>]"
    "map job (mx_queue ?t) = js" "mx_trace ?t = [Started j]" by simp_all
  from inv t(1) have run: "mx_running ?t" unfolding mx_inv_def by auto
  have "s = runExclusive k ?t" using snoc.prems by (simp add: mx_run_def)
  with t run show ?case by (simp add: runExclusive_def mx_handle_def)
qed

lemma mx_run_all:
  fixes outs :: "('v, 'e) outcome list"
  assumes "length outs = length js"
  shows "mx_trace (foldl complete_running (mx_run (map RunExclusive js)) outs) = run_of js"
proof (cases js)
  case Nil
  with assms show ?thesis by (simp add: mx_run_def mx_init_def)
next
  case (Cons j js')
  let ?s = "mx_run (map RunExclusive (j # js')) :: ('v, 'e) mutex"
  from mx_submit_all [of ?s j js'] have s: "mx_awaiting ?s = [\<lparr>job = j, pid = 0\<rparr>]"
    "map job (mx_queue ?s) = js'" "mx_trace ?s = [Started j]" by simp_all
  from s(2) have "length (mx_queue ?s) = length js'" by (metis length_map)
  with assms Cons have len: "length outs = Suc (length (mx_queue ?s))" by simp
  from mx_drain [OF s(1) len] s Cons show ?thesis by simp
qed

lemma mx_run_two:
  "(mx_run [RunExclusive 10, RunExclusive 20] :: (nat, string) mutex) =
     \<lparr>mx_queue = [\<lparr>job = 20, pid = 1\<rparr>], mx_running = True,
      mx_awaiting = [\<lparr>job = 10, pid = 0\<rparr>], mx_immediates = [],
      mx_promises = [Pending, Pending], mx_trace = [Started 10]\<rparr>"
  by (simp add: mx_run_def mx_init_def runExclusive_def mx_handle_def Let_def)

text \<open>
  C1.  Whatever the callers, the jobs and the event loop do (any list of events: calls of
  \<open>runExclusive\<close>, jobs returning or throwing, immediates firing), at most one
  activation of \<open>handle\<close> is awaiting a job body; the trace of the bodies is serial
  (each body has ended before the next begins, whether it returned or threw); and the
  bodies begun so far, followed by the jobs still queued, are exactly the submitted jobs
  in the order of the \<open>runExclusive\<close> calls.

  The runner makes progress as well.  A job is queued only while another one runs; a job
  submitted to an idle mutex is begun at once; when the running job settles, with either
  outcome, the oldest queued job is begun and leaves the queue; letting the running job
  and every queued one settle empties the mutex, the bodies having run one after the
  other in queue order; and jobs \<open>js\<close> submitted to a new mutex and settled one by one
  have run as \<open>run_of js\<close>: each begun and ended, in the order of submission.
\<close>

theorem mutex_serial_fifo:
  fixes evs :: "('v, 'e) mx_event list" and outs :: "('v, 'e) outcome list"
  shows
  "length (mx_awaiting (mx_run evs)) \<le> 1 \<and>
   serial (mx_trace (mx_run evs)) \<and>
   begun (mx_trace (mx_run evs)) @ map job (mx_queue (mx_run evs)) = submitted evs \<and>
   (mx_queue (mx_run evs) \<noteq> [] \<longrightarrow> mx_awaiting (mx_run evs) \<noteq> []) \<and>
   (mx_awaiting (mx_run evs) = [] \<longrightarrow>
      mx_awaiting (runExclusive j (mx_run evs)) =
        [\<lparr>job = j, pid = length (mx_promises (mx_run evs))\<rparr>] \<and>
      mx_trace (runExclusive j (mx_run evs)) = mx_trace (mx_run evs) @ [Started j]) \<and>
   (\<forall>t out q qs. mx_awaiting (mx_run evs) = [t] \<and> mx_queue (mx_run evs) = q # qs \<longrightarrow>
      mx_awaiting (mx_step (mx_run evs) (JobDone (pid t) out)) = [q] \<and>
      mx_queue (mx_step (mx_run evs) (JobDone (pid t) out)) = qs \<and>
      mx_trace (mx_step (mx_run evs) (JobDone (pid t) out)) =
        mx_trace (mx_run evs) @ [Finished (job t), Started (job q)]) \<and>
   (\<forall>t. mx_awaiting (mx_run evs) = [t] \<and> length outs = Suc (length (mx_queue (mx_run evs))) \<longrightarrow>
      mx_awaiting (foldl complete_running (mx_run evs) outs) = [] \<and>
      mx_queue (foldl complete_running (mx_run evs) outs) = [] \<and>
      mx_trace (foldl complete_running (mx_run evs) outs) =
        mx_trace (mx_run evs) @ Finished (job t) # run_of (map job (mx_queue (mx_run evs)))) \<and>
   (length outs = length js \<longrightarrow>
      mx_trace (foldl complete_running (mx_run (map RunExclusive js) :: ('v, 'e) mutex) outs) =
        run_of js)"
proof -
  let ?s = "mx_run evs"
  have inv: "mx_inv ?s" by (rule mx_inv_run)
  have a: "length (mx_awaiting ?s) \<le> 1 \<and> serial (mx_trace ?s)"
    by (rule mx_inv_serial [OF inv])
  have b: "begun (mx_trace ?s) @ map job (mx_queue ?s) = submitted evs"
    unfolding mx_run_def using mx_fifo_foldl [of mx_init evs] by (simp add: mx_init_def)
  have c: "mx_queue ?s \<noteq> [] \<longrightarrow> mx_awaiting ?s \<noteq> []"
    using mx_inv_busy_queue [OF inv] by blast
  have d: "mx_awaiting ?s = [] \<longrightarrow>
      mx_awaiting (runExclusive j ?s) = [\<lparr>job = j, pid = length (mx_promises ?s)\<rparr>] \<and>
      mx_trace (runExclusive j ?s) = mx_trace ?s @ [Started j]"
    using mx_idle_starts [OF inv, of j] by blast
  have e: "\<forall>t out q qs. mx_awaiting ?s = [t] \<and> mx_queue ?s = q # qs \<longrightarrow>
      mx_awaiting (mx_step ?s (JobDone (pid t) out)) = [q] \<and>
      mx_queue (mx_step ?s (JobDone (pid t) out)) = qs \<and>
      mx_trace (mx_step ?s (JobDone (pid t) out)) =
        mx_trace ?s @ [Finished (job t), Started (job q)]"
    using mx_done_next [of ?s] by blast
  have f: "\<forall>t. mx_awaiting ?s = [t] \<and> length outs = Suc (length (mx_queue ?s)) \<longrightarrow>
      mx_awaiting (foldl complete_running ?s outs) = [] \<and>
      mx_queue (foldl complete_running ?s outs) = [] \<and>
      mx_trace (foldl complete_running ?s outs) =
        mx_trace ?s @ Finished (job t) # run_of (map job (mx_queue ?s))"
    using mx_drain [of ?s _ outs] by blast
  have g: "length outs = length js \<longrightarrow>
      mx_trace (foldl complete_running (mx_run (map RunExclusive js) :: ('v, 'e) mutex) outs) =
        run_of js"
    using mx_run_all [of outs js] by blast
  from a b c d e f g show ?thesis by blast
qed

text \<open>
  An idle mutex begins job 10 at once; with job 10 running and job 20 queued, job 10
  throwing begins job 20, and the two outcomes leave the trace of both bodies in order.
\<close>

theorem mutex_serial_fifo_witness:
  "mx_awaiting (mx_run [] :: (nat, string) mutex) = [] \<and>
   mx_trace (runExclusive 10 (mx_run [] :: (nat, string) mutex)) = [Started 10] \<and>
   mx_queue (mx_run [RunExclusive 10, RunExclusive 20] :: (nat, string) mutex) \<noteq> [] \<and>
   mx_awaiting (mx_run [RunExclusive 10, RunExclusive 20] :: (nat, string) mutex) =
     [\<lparr>job = 10, pid = 0\<rparr>] \<and>
   mx_trace (mx_step (mx_run [RunExclusive 10, RunExclusive 20] :: (nat, string) mutex)
     (JobDone 0 (Threw ''boom''))) = [Started 10, Finished 10, Started 20] \<and>
   mx_trace (foldl complete_running
     (mx_run [RunExclusive 10, RunExclusive 20] :: (nat, string) mutex)
     [Threw ''boom'', Returned 7]) = [Started 10, Finished 10, Started 20, Finished 20] \<and>
   length [Threw ''boom'', Returned (7 :: nat)] = length [10 :: nat, 20] \<and>
   mx_trace (foldl complete_running
     (mx_run (map RunExclusive [10, 20]) :: (nat, string) mutex)
     [Threw ''boom'', Returned 7]) = [Started 10, Finished 10, Started 20, Finished 20]"
proof -
  let ?e = "mx_run [] :: (nat, string) mutex"
  let ?s = "mx_run [RunExclusive 10, RunExclusive 20] :: (nat, string) mutex"
  let ?outs = "[Threw ''boom'', Returned 7] :: (nat, string) outcome list"
  have idle: "mx_awaiting ?e = []" and etr: "mx_trace ?e = []"
    by (simp_all add: mx_run_def mx_init_def)
  have aw: "mx_awaiting ?s = [\<lparr>job = 10, pid = 0\<rparr>]"
    and qu: "mx_queue ?s = [\<lparr>job = 20, pid = 1\<rparr>]" and tr: "mx_trace ?s = [Started 10]"
    by (simp_all add: mx_run_two)
  have len: "length ?outs = Suc (length (mx_queue ?s))" by (simp add: qu)
  have len2: "length ?outs = length [10 :: nat, 20]" by simp
  note E = mutex_serial_fifo [of "[] :: (nat, string) mx_event list" 10 ?outs "[10, 20]"]
  note T = mutex_serial_fifo [of "[RunExclusive 10, RunExclusive 20] :: (nat, string) mx_event list"
      10 ?outs "[10, 20]"]
  from E idle etr have a: "mx_trace (runExclusive 10 ?e) = [Started 10]" by simp
  from T aw qu tr
  have b: "mx_trace (mx_step ?s (JobDone 0 (Threw ''boom''))) = [Started 10, Finished 10, Started 20]"
    by simp
  from T aw len have "mx_trace (foldl complete_running ?s ?outs) =
      mx_trace ?s @ Finished (job \<lparr>job = 10, pid = 0\<rparr>) # run_of (map job (mx_queue ?s))"
    by blast
  with tr qu have c: "mx_trace (foldl complete_running ?s ?outs) =
      [Started 10, Finished 10, Started 20, Finished 20]" by simp
  from T len2 have d: "mx_trace (foldl complete_running
     (mx_run (map RunExclusive [10, 20]) :: (nat, string) mutex) ?outs) = run_of [10, 20]"
    by blast
  from idle a aw qu b c d show ?thesis by simp
qed

subsection \<open>The promises of a mutex\<close>












section \<open>JobManager\<close>

text \<open>
  \<^verbatim>\<open>class JobManager<T>\<close>: the fields \<^verbatim>\<open>tasks\<close> and \<^verbatim>\<open>running\<close>, the suspended
  activations of \<^verbatim>\<open>handle\<close>, the promises returned by \<^verbatim>\<open>offer\<close> (of type
  \<^verbatim>\<open>T | null\<close>: \<open>None\<close> is \<^verbatim>\<open>null\<close>), and the observations made so far.  In this
  trace a body is named by the promise of its entry, which is unique to the call of
  \<^verbatim>\<open>offer\<close>.

  An activation of \<^verbatim>\<open>handle\<close> is suspended at \<^verbatim>\<open>await task.run()\<close>, and it passes
  through two stages.  First \<^verbatim>\<open>task.run()\<close> itself awaits the job (\<open>jm_awaiting\<close>).
  When the job settles, \<^verbatim>\<open>Task.run\<close> settles the caller's promise and returns; only
  later does \<^verbatim>\<open>handle\<close> resume (\<open>jm_resuming\<close> holds the activations in between).
  The caller sees its promise settled before \<^verbatim>\<open>handle\<close> has cleared \<^verbatim>\<open>running\<close>, so
  calls of \<^verbatim>\<open>offer\<close> may come in between: the two stages are two steps of the model.
\<close>

record ('v, 'e) jobmanager =
  jm_tasks :: "qitem list"
  jm_running :: bool
  jm_awaiting :: "qitem list"
  jm_resuming :: "qitem list"
  jm_promises :: "('v option, 'e) heap"
  jm_trace :: "obs list"

definition jm_init :: "('v, 'e) jobmanager" where
  "jm_init = \<lparr>jm_tasks = [], jm_running = False, jm_awaiting = [], jm_resuming = [],
     jm_promises = [],
     jm_trace = []\<rparr>"

text \<open>\<^verbatim>\<open>Task.cancel()\<close>: \<^verbatim>\<open>this.resolve(null)\<close>.\<close>

definition cancel :: "qitem \<Rightarrow> ('v option, 'e) heap \<Rightarrow> ('v option, 'e) heap" where
  "cancel task h = settle (pid task) (Fulfilled None) h"

text \<open>The loop at the head of \<^verbatim>\<open>handle()\<close>: while more than one task is queued, shift the
  oldest and cancel it.\<close>

function cancel_old :: "('v, 'e) jobmanager \<Rightarrow> ('v, 'e) jobmanager" where
  "cancel_old s =
     (if length (jm_tasks s) > 1
      then cancel_old (s\<lparr>jm_tasks := tl (jm_tasks s),
                          jm_promises := cancel (hd (jm_tasks s)) (jm_promises s)\<rparr>)
      else s)"
  by pat_completeness auto
termination
  by (relation "measure (\<lambda>s. length (jm_tasks s))") auto

declare cancel_old.simps [simp del]

text \<open>
  \<^verbatim>\<open>handle()\<close> up to its \<^verbatim>\<open>await\<close>: cancel the old tasks; return when running; pop the
  last task, return when there is none; otherwise set \<^verbatim>\<open>running\<close> and call
  \<^verbatim>\<open>task.run()\<close>, which calls the job.
\<close>

definition jm_handle :: "('v, 'e) jobmanager \<Rightarrow> ('v, 'e) jobmanager" where
  "jm_handle s =
     (let s1 = cancel_old s in
      if jm_running s1 then s1
      else if jm_tasks s1 = [] then s1
      else let task = last (jm_tasks s1) in
        s1\<lparr>jm_tasks := butlast (jm_tasks s1),
           jm_running := True,
           jm_awaiting := jm_awaiting s1 @ [task],
           jm_trace := jm_trace s1 @ [Started (pid task)]\<rparr>)"

text \<open>
  \<^verbatim>\<open>Task.run()\<close> from its \<^verbatim>\<open>await\<close> on: the job has returned or thrown, and the
  promise is resolved with the value or rejected with the error.  The activation of
  \<^verbatim>\<open>handle\<close> that awaits this \<^verbatim>\<open>task.run()\<close> is now due to resume.
\<close>

definition task_run_done ::
  "qitem \<Rightarrow> ('v, 'e) outcome \<Rightarrow> ('v, 'e) jobmanager \<Rightarrow> ('v, 'e) jobmanager" where
  "task_run_done task out s =
     s\<lparr>jm_awaiting := remove1 task (jm_awaiting s),
       jm_resuming := jm_resuming s @ [task],
       jm_trace := jm_trace s @ [Finished (pid task)],
       jm_promises := settle (pid task)
         (case out of Returned v \<Rightarrow> Fulfilled (Some v) | Threw e \<Rightarrow> Rejected e)
         (jm_promises s)\<rparr>"

text \<open>
  \<^verbatim>\<open>handle()\<close> from its \<^verbatim>\<open>await task.run()\<close> on: it clears \<^verbatim>\<open>running\<close> and calls
  \<^verbatim>\<open>handle()\<close> again.
\<close>

definition jm_resume :: "qitem \<Rightarrow> ('v, 'e) jobmanager \<Rightarrow> ('v, 'e) jobmanager" where
  "jm_resume task s =
     jm_handle (s\<lparr>jm_resuming := remove1 task (jm_resuming s), jm_running := False\<rparr>)"

text \<open>\<^verbatim>\<open>offer(job)\<close>: a new promise, the task pushed, \<^verbatim>\<open>handle()\<close> called.\<close>

definition offer :: "nat \<Rightarrow> ('v, 'e) jobmanager \<Rightarrow> ('v, 'e) jobmanager" where
  "offer j s =
     jm_handle (s\<lparr>jm_promises := jm_promises s @ [Pending],
                  jm_tasks := jm_tasks s @ [\<lparr>job = j, pid = length (jm_promises s)\<rparr>]\<rparr>)"

text \<open>
  The events of a job manager: a call of \<^verbatim>\<open>offer\<close>; the job of the task with promise
  \<open>p\<close> settles and \<^verbatim>\<open>Task.run\<close> resumes; the activation of \<^verbatim>\<open>handle\<close> that awaited
  that \<^verbatim>\<open>task.run()\<close> resumes.  An event for a task that is not in the stage it names
  has no effect.
\<close>

datatype ('v, 'e) jm_event = Offer nat | TaskDone nat "('v, 'e) outcome" | HandleResumes nat

fun jm_step :: "('v, 'e) jobmanager \<Rightarrow> ('v, 'e) jm_event \<Rightarrow> ('v, 'e) jobmanager" where
  "jm_step s (Offer j) = offer j s"
| "jm_step s (TaskDone p out) =
     (case find (\<lambda>t. pid t = p) (jm_awaiting s) of
        None \<Rightarrow> s
      | Some task \<Rightarrow> task_run_done task out s)"
| "jm_step s (HandleResumes p) =
     (case find (\<lambda>t. pid t = p) (jm_resuming s) of
        None \<Rightarrow> s
      | Some task \<Rightarrow> jm_resume task s)"

definition jm_run :: "('v, 'e) jm_event list \<Rightarrow> ('v, 'e) jobmanager" where
  "jm_run evs = foldl jm_step jm_init evs"

subsection \<open>The invariant of the job manager\<close>

lemma cancel_old_short: "length (jm_tasks s) \<le> 1 \<Longrightarrow> cancel_old s = s"
  by (simp add: cancel_old.simps)

lemma cancel_old_two:
  "jm_tasks s = [a, b] \<Longrightarrow>
   cancel_old s = s\<lparr>jm_tasks := [b], jm_promises := cancel a (jm_promises s)\<rparr>"
  by (simp add: cancel_old.simps)

text \<open>
  At most one task is queued; there is at most one activation of \<open>handle\<close>, and
  \<open>running\<close> is set exactly when there is one; nothing is queued when there is none;
  the promises of the queued task and of the task whose job is running are distinct and
  pending; a queued task has not begun; and a body that has begun was never cancelled.
\<close>

definition jm_inv :: "('v, 'e) jobmanager \<Rightarrow> bool" where
  "jm_inv s =
     (length (jm_tasks s) \<le> 1 \<and>
      ((jm_awaiting s = [] \<and> jm_resuming s = [] \<and> \<not> jm_running s \<and> jm_tasks s = []) \<or>
       (\<exists>t. jm_awaiting s = [t] \<and> jm_resuming s = [] \<and> jm_running s) \<or>
       (\<exists>t. jm_awaiting s = [] \<and> jm_resuming s = [t] \<and> jm_running s)) \<and>
      distinct (map pid (jm_tasks s @ jm_awaiting s)) \<and>
      (\<forall>t \<in> set (jm_tasks s @ jm_awaiting s).
         pid t < length (jm_promises s) \<and> jm_promises s ! pid t = Pending) \<and>
      (\<forall>t \<in> set (jm_tasks s). Started (pid t) \<notin> set (jm_trace s)) \<and>
      (\<forall>p. Started p \<in> set (jm_trace s) \<longrightarrow>
         p < length (jm_promises s) \<and> jm_promises s ! p \<noteq> Fulfilled None))"

lemma jm_inv_init: "jm_inv jm_init"
  by (simp add: jm_inv_def jm_init_def)

lemma settle_length [simp]: "length (settle p r h) = length h"
  by (simp add: settle_def)

lemma jm_inv_cases:
  assumes "jm_inv s"
  obtains (idle) "jm_awaiting s = []" "jm_resuming s = []" "\<not> jm_running s" "jm_tasks s = []"
    | (busy0) t where "jm_awaiting s @ jm_resuming s = [t]" "jm_running s" "jm_tasks s = []"
    | (busy1) t q where "jm_awaiting s @ jm_resuming s = [t]" "jm_running s" "jm_tasks s = [q]"
proof (cases "jm_tasks s")
  case Nil
  with assms idle busy0 show ?thesis unfolding jm_inv_def by auto
next
  case (Cons q qs)
  with assms have "qs = []" unfolding jm_inv_def by simp
  with Cons assms busy1 show ?thesis unfolding jm_inv_def by auto
qed

lemma jm_inv_offer:
  assumes "jm_inv s" shows "jm_inv (offer j s)"
  using assms
proof (cases rule: jm_inv_cases)
  case idle
  with assms show ?thesis
    unfolding jm_inv_def offer_def jm_handle_def
    by (auto simp: cancel_old_short Let_def nth_append)
next
  case (busy0 t)
  with assms show ?thesis
    unfolding jm_inv_def offer_def jm_handle_def
    by (auto simp: cancel_old_short Let_def nth_append)
next
  case (busy1 t q)
  with assms show ?thesis
    unfolding jm_inv_def offer_def jm_handle_def
    by (auto simp: cancel_old_two cancel_def Let_def nth_append settle_def nth_list_update)
qed

lemma jm_inv_task_run_done:
  assumes "jm_inv s" and "find (\<lambda>t. pid t = p) (jm_awaiting s) = Some task"
  shows "jm_inv (task_run_done task out s)"
proof -
  from assms(2) have mem: "task \<in> set (jm_awaiting s)"
    by (auto simp: find_Some_iff)
  with assms(1) have aw: "jm_awaiting s = [task]" and re: "jm_resuming s = []"
    and run: "jm_running s"
    unfolding jm_inv_def by auto
  from assms(1) aw re run show ?thesis
    unfolding jm_inv_def task_run_done_def
    by (cases out) (auto simp: settle_def nth_list_update)
qed

lemma jm_inv_resume:
  assumes "jm_inv s" and "find (\<lambda>t. pid t = p) (jm_resuming s) = Some task"
  shows "jm_inv (jm_resume task s)"
proof -
  from assms(2) have mem: "task \<in> set (jm_resuming s)"
    by (auto simp: find_Some_iff)
  with assms(1) have re: "jm_resuming s = [task]" and aw: "jm_awaiting s = []"
    unfolding jm_inv_def by auto
  consider (none) "jm_tasks s = []" | (one) q where "jm_tasks s = [q]"
    using assms(1) unfolding jm_inv_def by (cases "jm_tasks s") auto
  then show ?thesis
  proof cases
    case none
    with assms(1) aw re show ?thesis
      unfolding jm_inv_def jm_resume_def jm_handle_def
      by (auto simp: cancel_old_short Let_def)
  next
    case one
    with assms(1) aw re show ?thesis
      unfolding jm_inv_def jm_resume_def jm_handle_def
      by (auto simp: cancel_old_short Let_def)
  qed
qed

lemma jm_inv_step: "jm_inv s \<Longrightarrow> jm_inv (jm_step s ev)"
  by (cases ev) (auto simp: jm_inv_offer jm_inv_task_run_done jm_inv_resume split: option.splits)

lemma jm_inv_foldl: "jm_inv s \<Longrightarrow> jm_inv (foldl jm_step s evs)"
  by (induction evs arbitrary: s) (auto simp: jm_inv_step)

lemma jm_inv_run: "jm_inv (jm_run evs)"
  by (simp add: jm_run_def jm_inv_foldl jm_inv_init)

lemma cancel_old_settled:
  "p < length (jm_promises s) \<Longrightarrow> jm_promises s ! p \<noteq> Pending \<Longrightarrow>
   p < length (jm_promises (cancel_old s)) \<and> jm_promises (cancel_old s) ! p = jm_promises s ! p"
proof (induction s rule: cancel_old.induct)
  case (1 s)
  show ?case
  proof (cases "length (jm_tasks s) > 1")
    case True
    let ?s' = "s\<lparr>jm_tasks := tl (jm_tasks s),
                  jm_promises := cancel (hd (jm_tasks s)) (jm_promises s)\<rparr>"
    have eq: "jm_promises ?s' ! p = jm_promises s ! p" and len: "p < length (jm_promises ?s')"
      using "1.prems" by (auto simp: cancel_def settle_def nth_list_update)
    from "1.IH" [OF True] len eq "1.prems" 
    have "p < length (jm_promises (cancel_old ?s')) \<and>
          jm_promises (cancel_old ?s') ! p = jm_promises ?s' ! p"
      by simp
    with True eq show ?thesis by (subst (1 2) cancel_old.simps) simp
  next
    case False
    with "1.prems" show ?thesis by (simp add: cancel_old.simps)
  qed
qed

lemma jm_handle_settled:
  "p < length (jm_promises s) \<Longrightarrow> jm_promises s ! p \<noteq> Pending \<Longrightarrow>
   p < length (jm_promises (jm_handle s)) \<and> jm_promises (jm_handle s) ! p = jm_promises s ! p"
  using cancel_old_settled [of p s] by (simp add: jm_handle_def Let_def)

lemma jm_step_settled:
  assumes "p < length (jm_promises s)" and "jm_promises s ! p \<noteq> Pending"
  shows "p < length (jm_promises (jm_step s ev)) \<and>
         jm_promises (jm_step s ev) ! p = jm_promises s ! p"
proof (cases ev)
  case (Offer j)
  let ?s' = "s\<lparr>jm_promises := jm_promises s @ [Pending],
      jm_tasks := jm_tasks s @ [\<lparr>job = j, pid = length (jm_promises s)\<rparr>]\<rparr>"
  have "p < length (jm_promises ?s')" "jm_promises ?s' ! p = jm_promises s ! p"
    using assms by (simp_all add: nth_append)
  with jm_handle_settled [of p ?s'] assms Offer show ?thesis
    by (simp add: offer_def)
next
  case (TaskDone q out)
  with assms show ?thesis
    by (auto simp: task_run_done_def settle_def nth_list_update split: option.splits)
next
  case (HandleResumes q)
  show ?thesis
  proof (cases "find (\<lambda>t. pid t = q) (jm_resuming s)")
    case None
    with HandleResumes assms show ?thesis by simp
  next
    case (Some task)
    let ?s' = "s\<lparr>jm_resuming := remove1 task (jm_resuming s), jm_running := False\<rparr>"
    have "p < length (jm_promises ?s')" "jm_promises ?s' ! p = jm_promises s ! p"
      using assms by simp_all
    with jm_handle_settled [of p ?s'] assms HandleResumes Some show ?thesis
      by (simp add: jm_resume_def)
  qed
qed

lemma jm_foldl_settled:
  "p < length (jm_promises s) \<Longrightarrow> jm_promises s ! p \<noteq> Pending \<Longrightarrow>
   p < length (jm_promises (foldl jm_step s evs)) \<and>
   jm_promises (foldl jm_step s evs) ! p = jm_promises s ! p"
proof (induction evs arbitrary: s)
  case Nil
  then show ?case by simp
next
  case (Cons ev evs)
  from jm_step_settled [OF Cons.prems, of ev] Cons.IH [of "jm_step s ev"] Cons.prems
  show ?case by simp
qed

subsection \<open>Offers, completions and resumptions in a reachable state\<close>

lemma jm_offer_busy:
  assumes "jm_inv s" and "jm_awaiting s @ jm_resuming s = [t]"
  shows "jm_awaiting (offer j s) = jm_awaiting s \<and> jm_resuming (offer j s) = jm_resuming s \<and>
     jm_trace (offer j s) = jm_trace s \<and>
     jm_tasks (offer j s) = [\<lparr>job = j, pid = length (jm_promises s)\<rparr>] \<and>
     (\<forall>q \<in> set (jm_tasks s). jm_promises (offer j s) ! pid q = Fulfilled None)"
proof -
  have run: "jm_running s" using assms unfolding jm_inv_def by auto
  consider (none) "jm_tasks s = []" | (one) q where "jm_tasks s = [q]"
    using assms(1) unfolding jm_inv_def by (cases "jm_tasks s") auto
  then show ?thesis
  proof cases
    case none
    with run show ?thesis
      unfolding offer_def jm_handle_def by (simp add: cancel_old_short Let_def)
  next
    case one
    with assms(1) have "pid q < length (jm_promises s)" "jm_promises s ! pid q = Pending"
      unfolding jm_inv_def by auto
    with one run show ?thesis
      unfolding offer_def jm_handle_def
      by (simp add: cancel_old_two cancel_def Let_def settle_def nth_append)
  qed
qed

lemma jm_offer_idle:
  assumes "jm_inv s" and "jm_awaiting s = []" and "jm_resuming s = []"
  shows "jm_awaiting (offer j s) = [\<lparr>job = j, pid = length (jm_promises s)\<rparr>] \<and>
     jm_tasks (offer j s) = [] \<and>
     jm_trace (offer j s) = jm_trace s @ [Started (length (jm_promises s))]"
proof -
  from assms have "\<not> jm_running s" "jm_tasks s = []" unfolding jm_inv_def by auto
  with assms(2) show ?thesis
    unfolding offer_def jm_handle_def by (simp add: cancel_old_short Let_def)
qed

lemma jm_task_done:
  assumes "jm_inv s" and "jm_awaiting s = [t]"
  shows "jm_promises (jm_step s (TaskDone (pid t) out)) =
       (jm_promises s)[pid t :=
          (case out of Returned v \<Rightarrow> Fulfilled (Some v) | Threw e \<Rightarrow> Rejected e)] \<and>
     pid t < length (jm_promises s) \<and> jm_promises s ! pid t = Pending \<and>
     jm_awaiting (jm_step s (TaskDone (pid t) out)) = [] \<and>
     jm_resuming (jm_step s (TaskDone (pid t) out)) = [t] \<and>
     jm_tasks (jm_step s (TaskDone (pid t) out)) = jm_tasks s \<and>
     jm_running (jm_step s (TaskDone (pid t) out)) \<and>
     jm_trace (jm_step s (TaskDone (pid t) out)) = jm_trace s @ [Finished (pid t)]"
proof -
  from assms have pend: "pid t < length (jm_promises s)" "jm_promises s ! pid t = Pending"
    and re: "jm_resuming s = []" and run: "jm_running s"
    unfolding jm_inv_def by auto
  with assms(2) show ?thesis
    by (simp add: task_run_done_def settle_def)
qed

lemma jm_handle_resumes:
  assumes "jm_inv s" and "jm_resuming s = [t]"
  shows "jm_promises (jm_step s (HandleResumes (pid t))) = jm_promises s \<and>
     jm_resuming (jm_step s (HandleResumes (pid t))) = [] \<and>
     (jm_tasks s = [] \<longrightarrow>
        jm_awaiting (jm_step s (HandleResumes (pid t))) = [] \<and>
        \<not> jm_running (jm_step s (HandleResumes (pid t))) \<and>
        jm_trace (jm_step s (HandleResumes (pid t))) = jm_trace s) \<and>
     (\<forall>q. jm_tasks s = [q] \<longrightarrow>
        jm_tasks (jm_step s (HandleResumes (pid t))) = [] \<and>
        jm_awaiting (jm_step s (HandleResumes (pid t))) = [q] \<and>
        jm_running (jm_step s (HandleResumes (pid t))) \<and>
        jm_trace (jm_step s (HandleResumes (pid t))) = jm_trace s @ [Started (pid q)])"
proof -
  from assms have aw: "jm_awaiting s = []" unfolding jm_inv_def by auto
  consider (none) "jm_tasks s = []" | (one) q where "jm_tasks s = [q]"
    using assms(1) unfolding jm_inv_def by (cases "jm_tasks s") auto
  then show ?thesis
  proof cases
    case none
    with assms(2) aw show ?thesis
      by (simp add: jm_resume_def jm_handle_def cancel_old_short Let_def)
  next
    case one
    with assms(2) aw show ?thesis
      by (simp add: jm_resume_def jm_handle_def cancel_old_short Let_def)
  qed
qed


section \<open>Properties of JobManager, and fault isolation\<close>

text \<open>
  C2.  In every reachable state of a JobManager (any list of offers, job completions and
  resumptions of \<open>handle\<close>): at most one task is queued and there is at most one
  activation of \<open>handle\<close>; an offer made while there is an activation (its job running,
  or finished with \<open>handle\<close> yet to resume) leaves it as it is, starts no body, leaves
  the new task as the only queued one and resolves the promise of every task that was
  queued to \<open>null\<close>; an offer made when there is none starts its job at once; a promise
  resolved to \<open>null\<close> stays so and its body is never begun, whatever happens later; the
  promise of the running task is pending (nothing cancels it) until its job settles,
  and is then settled with the job's own outcome, the queue being left as it is; and
  when \<open>handle\<close> then resumes, the task queued at that moment, the most recently
  offered one, is started, if there is one.
\<close>

theorem jobmanager_latest_wins:
  fixes evs :: "('v, 'e) jm_event list"
  shows
  "length (jm_tasks (jm_run evs)) \<le> 1 \<and>
   length (jm_awaiting (jm_run evs) @ jm_resuming (jm_run evs)) \<le> 1 \<and>
   (\<forall>t j. jm_awaiting (jm_run evs) @ jm_resuming (jm_run evs) = [t] \<longrightarrow>
      jm_awaiting (offer j (jm_run evs)) = jm_awaiting (jm_run evs) \<and>
      jm_resuming (offer j (jm_run evs)) = jm_resuming (jm_run evs) \<and>
      jm_trace (offer j (jm_run evs)) = jm_trace (jm_run evs) \<and>
      jm_tasks (offer j (jm_run evs)) = [\<lparr>job = j, pid = length (jm_promises (jm_run evs))\<rparr>] \<and>
      (\<forall>q \<in> set (jm_tasks (jm_run evs)).
         jm_promises (offer j (jm_run evs)) ! pid q = Fulfilled None)) \<and>
   (\<forall>j. jm_awaiting (jm_run evs) = [] \<and> jm_resuming (jm_run evs) = [] \<longrightarrow>
      jm_awaiting (offer j (jm_run evs)) = [\<lparr>job = j, pid = length (jm_promises (jm_run evs))\<rparr>] \<and>
      jm_tasks (offer j (jm_run evs)) = [] \<and>
      jm_trace (offer j (jm_run evs)) =
        jm_trace (jm_run evs) @ [Started (length (jm_promises (jm_run evs)))]) \<and>
   (\<forall>p evs'. p < length (jm_promises (jm_run evs)) \<and>
      jm_promises (jm_run evs) ! p = Fulfilled None \<longrightarrow>
      jm_promises (jm_run (evs @ evs')) ! p = Fulfilled None \<and>
      Started p \<notin> set (jm_trace (jm_run (evs @ evs')))) \<and>
   (\<forall>t \<in> set (jm_awaiting (jm_run evs)). jm_promises (jm_run evs) ! pid t = Pending) \<and>
   (\<forall>t out. jm_awaiting (jm_run evs) = [t] \<longrightarrow>
      jm_promises (jm_step (jm_run evs) (TaskDone (pid t) out)) =
        (jm_promises (jm_run evs))[pid t :=
           (case out of Returned v \<Rightarrow> Fulfilled (Some v) | Threw e \<Rightarrow> Rejected e)] \<and>
      pid t < length (jm_promises (jm_run evs)) \<and>
      jm_promises (jm_run evs) ! pid t = Pending \<and>
      jm_awaiting (jm_step (jm_run evs) (TaskDone (pid t) out)) = [] \<and>
      jm_resuming (jm_step (jm_run evs) (TaskDone (pid t) out)) = [t] \<and>
      jm_tasks (jm_step (jm_run evs) (TaskDone (pid t) out)) = jm_tasks (jm_run evs) \<and>
      jm_running (jm_step (jm_run evs) (TaskDone (pid t) out)) \<and>
      jm_trace (jm_step (jm_run evs) (TaskDone (pid t) out)) =
        jm_trace (jm_run evs) @ [Finished (pid t)]) \<and>
   (\<forall>t. jm_resuming (jm_run evs) = [t] \<longrightarrow>
      jm_promises (jm_step (jm_run evs) (HandleResumes (pid t))) = jm_promises (jm_run evs) \<and>
      jm_resuming (jm_step (jm_run evs) (HandleResumes (pid t))) = [] \<and>
      (jm_tasks (jm_run evs) = [] \<longrightarrow>
         jm_awaiting (jm_step (jm_run evs) (HandleResumes (pid t))) = [] \<and>
         \<not> jm_running (jm_step (jm_run evs) (HandleResumes (pid t))) \<and>
         jm_trace (jm_step (jm_run evs) (HandleResumes (pid t))) = jm_trace (jm_run evs)) \<and>
      (\<forall>q. jm_tasks (jm_run evs) = [q] \<longrightarrow>
         jm_tasks (jm_step (jm_run evs) (HandleResumes (pid t))) = [] \<and>
         jm_awaiting (jm_step (jm_run evs) (HandleResumes (pid t))) = [q] \<and>
         jm_running (jm_step (jm_run evs) (HandleResumes (pid t))) \<and>
         jm_trace (jm_step (jm_run evs) (HandleResumes (pid t))) =
           jm_trace (jm_run evs) @ [Started (pid q)]))"
proof -
  let ?s = "jm_run evs"
  have inv: "jm_inv ?s" by (rule jm_inv_run)
  have a: "length (jm_tasks ?s) \<le> 1 \<and> length (jm_awaiting ?s @ jm_resuming ?s) \<le> 1"
    using inv unfolding jm_inv_def by auto
  have b: "\<forall>t \<in> set (jm_awaiting ?s). jm_promises ?s ! pid t = Pending"
    using inv unfolding jm_inv_def by auto
  have c: "\<forall>p evs'. p < length (jm_promises ?s) \<and> jm_promises ?s ! p = Fulfilled None \<longrightarrow>
      jm_promises (jm_run (evs @ evs')) ! p = Fulfilled None \<and>
      Started p \<notin> set (jm_trace (jm_run (evs @ evs')))"
  proof (intro allI impI)
    fix p evs'
    assume h: "p < length (jm_promises ?s) \<and> jm_promises ?s ! p = Fulfilled None"
    then have "jm_promises ?s ! p \<noteq> Pending" by simp
    with h jm_foldl_settled [of p ?s evs']
    have keep: "jm_promises (jm_run (evs @ evs')) ! p = Fulfilled None"
      by (simp add: jm_run_def)
    have "jm_inv (jm_run (evs @ evs'))" by (rule jm_inv_run)
    with keep have "Started p \<notin> set (jm_trace (jm_run (evs @ evs')))"
      unfolding jm_inv_def by blast
    with keep show "jm_promises (jm_run (evs @ evs')) ! p = Fulfilled None \<and>
      Started p \<notin> set (jm_trace (jm_run (evs @ evs')))" by simp
  qed
  have d: "\<forall>j. jm_awaiting ?s = [] \<and> jm_resuming ?s = [] \<longrightarrow>
      jm_awaiting (offer j ?s) = [\<lparr>job = j, pid = length (jm_promises ?s)\<rparr>] \<and>
      jm_tasks (offer j ?s) = [] \<and>
      jm_trace (offer j ?s) = jm_trace ?s @ [Started (length (jm_promises ?s))]"
    using jm_offer_idle [OF inv] by blast
  from a b c d jm_offer_busy [OF inv] jm_task_done [OF inv] jm_handle_resumes [OF inv]
  show ?thesis by blast
qed


subsection \<open>Concrete runs\<close>

lemma jm_run_two:
  "(jm_run [Offer 10, Offer 20] :: (nat, string) jobmanager) =
     \<lparr>jm_tasks = [\<lparr>job = 20, pid = 1\<rparr>], jm_running = True,
      jm_awaiting = [\<lparr>job = 10, pid = 0\<rparr>], jm_resuming = [],
      jm_promises = [Pending, Pending], jm_trace = [Started 0]\<rparr>"
  by (simp add: jm_run_def jm_init_def offer_def jm_handle_def cancel_old.simps Let_def)

lemma jm_run_race:
  "(jm_run [Offer 10, Offer 20, TaskDone 0 (Threw ''boom''), Offer 30] :: (nat, string) jobmanager) =
     \<lparr>jm_tasks = [\<lparr>job = 30, pid = 2\<rparr>], jm_running = True,
      jm_awaiting = [], jm_resuming = [\<lparr>job = 10, pid = 0\<rparr>],
      jm_promises = [Rejected ''boom'', Fulfilled None, Pending],
      jm_trace = [Started 0, Finished 0]\<rparr>"
  by (simp add: jm_run_def jm_init_def offer_def jm_handle_def cancel_old.simps Let_def
      task_run_done_def settle_def cancel_def)


text \<open>C2: the first offer; then, at the run "offer 10, offer 20", a third offer or the
  completion of job 10; and at the run where job 10 has failed and its caller has offered
  job 30 before \<open>handle\<close> resumes: job 20 is cancelled and never begins, job 30 is started.\<close>

theorem jobmanager_latest_wins_witness:
  "jm_awaiting (jm_run [] :: (nat, string) jobmanager) = [] \<and>
   jm_resuming (jm_run [] :: (nat, string) jobmanager) = [] \<and>
   jm_trace (offer 10 (jm_run [] :: (nat, string) jobmanager)) = [Started 0] \<and>
   jm_awaiting (jm_run [Offer 10, Offer 20] :: (nat, string) jobmanager) @
     jm_resuming (jm_run [Offer 10, Offer 20] :: (nat, string) jobmanager) =
     [\<lparr>job = 10, pid = 0\<rparr>] \<and>
   jm_tasks (jm_run [Offer 10, Offer 20] :: (nat, string) jobmanager) = [\<lparr>job = 20, pid = 1\<rparr>] \<and>
   jm_tasks (offer 30 (jm_run [Offer 10, Offer 20] :: (nat, string) jobmanager)) =
     [\<lparr>job = 30, pid = 2\<rparr>] \<and>
   jm_promises (offer 30 (jm_run [Offer 10, Offer 20] :: (nat, string) jobmanager)) ! 1 =
     Fulfilled None \<and>
   jm_promises (jm_step (jm_run [Offer 10, Offer 20] :: (nat, string) jobmanager)
       (TaskDone 0 (Returned 7))) = [Fulfilled (Some 7), Pending] \<and>
   jm_tasks (jm_step (jm_run [Offer 10, Offer 20] :: (nat, string) jobmanager)
       (TaskDone 0 (Returned 7))) = [\<lparr>job = 20, pid = 1\<rparr>] \<and>
   jm_resuming (jm_run [Offer 10, Offer 20, TaskDone 0 (Threw ''boom''), Offer 30]
       :: (nat, string) jobmanager) = [\<lparr>job = 10, pid = 0\<rparr>] \<and>
   jm_awaiting (jm_step (jm_run [Offer 10, Offer 20, TaskDone 0 (Threw ''boom''), Offer 30]
       :: (nat, string) jobmanager) (HandleResumes 0)) = [\<lparr>job = 30, pid = 2\<rparr>] \<and>
   jm_trace (jm_step (jm_run [Offer 10, Offer 20, TaskDone 0 (Threw ''boom''), Offer 30]
       :: (nat, string) jobmanager) (HandleResumes 0)) = [Started 0, Finished 0, Started 2] \<and>
   Started 1 \<notin> set (jm_trace (jm_run
     ([Offer 10, Offer 20, TaskDone 0 (Threw ''boom''), Offer 30] @ [HandleResumes 0])
       :: (nat, string) jobmanager))"
proof -
  let ?e = "jm_run [] :: (nat, string) jobmanager"
  let ?s = "jm_run [Offer 10, Offer 20] :: (nat, string) jobmanager"
  let ?r = "jm_run [Offer 10, Offer 20, TaskDone 0 (Threw ''boom''), Offer 30]
    :: (nat, string) jobmanager"
  have idle: "jm_awaiting ?e = [] \<and> jm_resuming ?e = []"
    and etr: "jm_trace ?e = []" and epr: "jm_promises ?e = []"
    by (simp_all add: jm_run_def jm_init_def)
  have busy: "jm_awaiting ?s @ jm_resuming ?s = [\<lparr>job = 10, pid = 0\<rparr>]"
    and aw: "jm_awaiting ?s = [\<lparr>job = 10, pid = 0\<rparr>]"
    and tk: "jm_tasks ?s = [\<lparr>job = 20, pid = 1\<rparr>]"
    and pr: "jm_promises ?s = [Pending, Pending]"
    by (simp_all add: jm_run_two)
  have re: "jm_resuming ?r = [\<lparr>job = 10, pid = 0\<rparr>]"
    and rtk: "jm_tasks ?r = [\<lparr>job = 30, pid = 2\<rparr>]"
    and rtr: "jm_trace ?r = [Started 0, Finished 0]"
    and rpr: "1 < length (jm_promises ?r) \<and> jm_promises ?r ! 1 = Fulfilled None"
    by (simp_all add: jm_run_race)
  note E = jobmanager_latest_wins [of "[] :: (nat, string) jm_event list"]
  note T = jobmanager_latest_wins [of "[Offer 10, Offer 20] :: (nat, string) jm_event list"]
  note R = jobmanager_latest_wins [of
      "[Offer 10, Offer 20, TaskDone 0 (Threw ''boom''), Offer 30] :: (nat, string) jm_event list"]
  from E idle have "jm_trace (offer 10 ?e) = jm_trace ?e @ [Started (length (jm_promises ?e))]"
    by blast
  with etr epr have a: "jm_trace (offer 10 ?e) = [Started 0]" by simp
  from T busy have off: "jm_tasks (offer 30 ?s) = [\<lparr>job = 30, pid = length (jm_promises ?s)\<rparr>] \<and>
      (\<forall>q \<in> set (jm_tasks ?s). jm_promises (offer 30 ?s) ! pid q = Fulfilled None)"
    by blast
  with pr tk have b: "jm_tasks (offer 30 ?s) = [\<lparr>job = 30, pid = 2\<rparr>]"
    and c: "jm_promises (offer 30 ?s) ! 1 = Fulfilled None" by simp_all
  from T aw have "jm_promises (jm_step ?s (TaskDone (pid \<lparr>job = 10, pid = 0\<rparr>) (Returned 7))) =
        (jm_promises ?s)[pid \<lparr>job = 10, pid = 0\<rparr> :=
           (case Returned 7 of Returned v \<Rightarrow> Fulfilled (Some v) | Threw e \<Rightarrow> Rejected e)] \<and>
      jm_tasks (jm_step ?s (TaskDone (pid \<lparr>job = 10, pid = 0\<rparr>) (Returned 7))) = jm_tasks ?s"
    by blast
  with pr tk have d: "jm_promises (jm_step ?s (TaskDone 0 (Returned 7))) = [Fulfilled (Some 7), Pending]"
    and e: "jm_tasks (jm_step ?s (TaskDone 0 (Returned 7))) = [\<lparr>job = 20, pid = 1\<rparr>]"
    by simp_all
  from R re rtk have "jm_awaiting (jm_step ?r (HandleResumes (pid \<lparr>job = 10, pid = 0\<rparr>))) =
        [\<lparr>job = 30, pid = 2\<rparr>] \<and>
      jm_trace (jm_step ?r (HandleResumes (pid \<lparr>job = 10, pid = 0\<rparr>))) =
        jm_trace ?r @ [Started (pid \<lparr>job = 30, pid = 2\<rparr>)]"
    by blast
  with rtr have f: "jm_awaiting (jm_step ?r (HandleResumes 0)) = [\<lparr>job = 30, pid = 2\<rparr>]"
    and g: "jm_trace (jm_step ?r (HandleResumes 0)) = [Started 0, Finished 0, Started 2]"
    by simp_all
  from R rpr have h: "Started 1 \<notin> set (jm_trace (jm_run
     ([Offer 10, Offer 20, TaskDone 0 (Threw ''boom''), Offer 30] @ [HandleResumes 0])
       :: (nat, string) jobmanager))"
    by blast
  from idle a busy tk b c d e re f g h show ?thesis by blast
qed


section \<open>Process executor\<close>

text \<open>
  \<^verbatim>\<open>realExec\<close> builds a promise and registers handlers on the child process; the
  handlers run later, one per event of the child or of the cancellation token.  The
  embedding is the state shared by the handlers (the variables \<^verbatim>\<open>stdout\<close>,
  \<^verbatim>\<open>stderr\<close>, \<^verbatim>\<open>lastChar\<close> of the closure, the promise, what has been appended to the
  logger, the signals sent to the child) and one step per handler.

  \<^verbatim>\<open>ExecOptions\<close>: \<open>logger\<close> tells whether a logger was given; \<open>cancellationToken\<close> is
  \<open>None\<close> without a token and otherwise \<open>Some\<close> of \<^verbatim>\<open>isCancellationRequested\<close> at the
  time of the call.  The options \<^verbatim>\<open>cwd\<close> and \<^verbatim>\<open>env\<close> only reach \<^verbatim>\<open>spawn\<close> and are
  left out.  The function \<^verbatim>\<open>shutil.escapeArray\<close> is not among the sources and is a
  parameter of the model.

  The promise executor has no \<^verbatim>\<open>try\<close> block and never calls its \<^verbatim>\<open>_reject\<close>: the
  promise is rejected exactly when the executor throws, which it does when
  \<^verbatim>\<open>childProcess.spawn\<close> throws or when the child it returns lacks the streams the
  executor goes on to use.  The calls of the logger, of \<^verbatim>\<open>kill\<close> and \<^verbatim>\<open>treeKill\<close> and of
  the cancellation token are taken to return.  The definitions \<open>exec_start\<close>, \<open>exec_step\<close> and \<open>realExec\<close>
  are the executor and its handlers for a call in which \<^verbatim>\<open>spawn\<close> has returned a child
  with its streams, the process id of the child being a parameter (\<open>None\<close> for
  \<^verbatim>\<open>undefined\<close>); \<open>exec\<close> puts the paths on which the executor throws in front of
  them.
\<close>

record exec_options =
  logger :: bool
  logStdout :: bool
  ignoreNonZeroExit :: bool
  pipeStdin :: "string option"
  cancellationToken :: "bool option"
  treeKillWhenCancelling :: bool

record exec_result =
  exitStatus :: "int option"
  stdout :: string
  stderr :: string

datatype exec_error =
    AbnormalExitError string "int option" string string
  | ProcessError string
  | CancelledError string

text \<open>The exit status as a template literal prints it: a decimal number, or \<^verbatim>\<open>null\<close>.\<close>

function show_nat :: "nat \<Rightarrow> string" where
  "show_nat n =
     (if n < 10 then [''0123456789'' ! n] else show_nat (n div 10) @ [''0123456789'' ! (n mod 10)])"
  by pat_completeness auto
termination
  by (relation "measure id") auto

declare show_nat.simps [simp del]

definition show_status :: "int option \<Rightarrow> string" where
  "show_status st =
     (case st of
        None \<Rightarrow> ''null''
      | Some n \<Rightarrow> if n < 0 then CHR ''-'' # show_nat (nat (- n)) else show_nat (nat n))"

text \<open>The messages of the three error classes.\<close>

definition quoted :: "string \<Rightarrow> string" where
  "quoted cmd = [CHR 0x22] @ cmd @ [CHR 0x22]"

definition newAbnormalExitError ::
  "(string list \<Rightarrow> string) \<Rightarrow> string \<Rightarrow> string list \<Rightarrow> int option \<Rightarrow> string \<Rightarrow> string \<Rightarrow> exec_error" where
  "newAbnormalExitError escapeArray cmd args st out err =
     AbnormalExitError (quoted (escapeArray (cmd # args)) @ '' failed, exit status: '' @ show_status st)
       st out err"

definition newProcessError :: "(string list \<Rightarrow> string) \<Rightarrow> string \<Rightarrow> string list \<Rightarrow> string \<Rightarrow> exec_error" where
  "newProcessError escapeArray cmd args cause =
     ProcessError (quoted (escapeArray (cmd # args)) @ '' failed: '' @ cause)"

definition newCancelledError :: "(string list \<Rightarrow> string) \<Rightarrow> string \<Rightarrow> string list \<Rightarrow> exec_error" where
  "newCancelledError escapeArray cmd args =
     CancelledError (quoted (escapeArray (cmd # args)) @ '' cancelled'')"

text \<open>
  The promise of \<^verbatim>\<open>exec\<close> resolves with \<^verbatim>\<open>ExecResult | Error\<close>: \<open>Inl\<close> is the error.
  What a rejected promise carries is what was thrown: one of the errors above (thrown by
  \<^verbatim>\<open>execOrThrow\<close>), or anything else, given by its message.
\<close>

datatype exec_thrown = ThrownExecError exec_error | ThrownOther string

type_synonym exec_promise = "(exec_error + exec_result, exec_thrown) settlement"

record exec_state =
  ex_stdout :: string
  ex_stderr :: string
  ex_lastChar :: "string option"
  ex_log :: "string list"
  ex_promise :: exec_promise
  ex_exitCode :: "int option"
  ex_kills :: nat
  ex_treeKills :: nat
  ex_stdin :: "string option"

text \<open>\<^verbatim>\<open>resolve(x)\<close>: only the first call settles the promise.\<close>

definition resolve :: "exec_error + exec_result \<Rightarrow> exec_state \<Rightarrow> exec_state" where
  "resolve r s = (if ex_promise s = Pending then s\<lparr>ex_promise := Fulfilled r\<rparr> else s)"

text \<open>\<^verbatim>\<open>data[data.length - 1]\<close>: a one-character string, or \<^verbatim>\<open>undefined\<close> (\<open>None\<close>) for empty
  data.\<close>

definition lastCharOf :: "string \<Rightarrow> string option" where
  "lastCharOf d = (if d = [] then None else Some [last d])"

definition newline :: string where
  "newline = [CHR 0x0A]"

text \<open>The first statement of the \<^verbatim>\<open>close\<close> and \<^verbatim>\<open>error\<close> handlers.\<close>

definition flush :: "exec_options \<Rightarrow> exec_state \<Rightarrow> exec_state" where
  "flush opts s =
     (if logger opts \<and> ex_lastChar s \<noteq> Some [] \<and> ex_lastChar s \<noteq> Some newline
      then s\<lparr>ex_log := ex_log s @ [newline]\<rparr> else s)"

text \<open>The closure \<^verbatim>\<open>cancel\<close>: kill the child and resolve, or ask \<^verbatim>\<open>treeKill\<close> and resolve
  in its callback.\<close>

definition cancel_exec ::
  "(string list \<Rightarrow> string) \<Rightarrow> nat option \<Rightarrow> string \<Rightarrow> string list \<Rightarrow> exec_options \<Rightarrow>
   exec_state \<Rightarrow> exec_state" where
  "cancel_exec escapeArray cpid name args opts s =
     (if \<not> treeKillWhenCancelling opts \<or> cpid = None \<or> ex_exitCode s \<noteq> None
      then resolve (Inl (newCancelledError escapeArray name args)) (s\<lparr>ex_kills := ex_kills s + 1\<rparr>)
      else s\<lparr>ex_treeKills := ex_treeKills s + 1\<rparr>)"

datatype proc_event =
    StdoutData string
  | StderrData string
  | Exit int
  | Close "int option"
  | SpawnError string
  | CancellationRequested
  | TreeKillCallback bool

text \<open>
  The body of the promise executor up to the registration of the handlers, for a child
  with its streams: the command line is logged; \<^verbatim>\<open>pipeStdin\<close>, when it is given and not
  the empty string, is written to the standard input of the child, which is then closed
  (\<open>ex_stdin\<close>); and a token that is already cancelled cancels at once.
\<close>

definition pipes_stdin :: "exec_options \<Rightarrow> bool" where
  "pipes_stdin opts = (case pipeStdin opts of None \<Rightarrow> False | Some text \<Rightarrow> text \<noteq> [])"

definition exec_start ::
  "(string list \<Rightarrow> string) \<Rightarrow> nat option \<Rightarrow> string \<Rightarrow> string list \<Rightarrow> exec_options \<Rightarrow> exec_state" where
  "exec_start escapeArray cpid name args opts =
     (let s = \<lparr>ex_stdout = [], ex_stderr = [], ex_lastChar = Some [],
                 ex_log = (if logger opts then [escapeArray (name # args) @ newline] else []),
                 ex_promise = Pending, ex_exitCode = None, ex_kills = 0, ex_treeKills = 0,
                 ex_stdin = (if pipes_stdin opts then pipeStdin opts else None)\<rparr>
      in if cancellationToken opts = Some True
         then cancel_exec escapeArray cpid name args opts s else s)"

text \<open>The handlers: \<^verbatim>\<open>stdout.on('data')\<close>, \<^verbatim>\<open>stderr.on('data')\<close>, the exit of the child
  (which sets \<^verbatim>\<open>command.exitCode\<close>), \<^verbatim>\<open>on('close')\<close>, \<^verbatim>\<open>on('error')\<close>,
  \<^verbatim>\<open>onCancellationRequested\<close> and the callback of \<^verbatim>\<open>treeKill\<close>.\<close>

fun exec_step ::
  "(string list \<Rightarrow> string) \<Rightarrow> nat option \<Rightarrow> string \<Rightarrow> string list \<Rightarrow> exec_options \<Rightarrow>
   exec_state \<Rightarrow> proc_event \<Rightarrow> exec_state" where
  "exec_step escapeArray cpid name args opts s (StdoutData d) =
     (let s1 = (if logger opts \<and> logStdout opts
                then s\<lparr>ex_log := ex_log s @ [d], ex_lastChar := lastCharOf d\<rparr> else s)
      in s1\<lparr>ex_stdout := ex_stdout s1 @ d\<rparr>)"
| "exec_step escapeArray cpid name args opts s (StderrData d) =
     (let s1 = (if logger opts
                then s\<lparr>ex_log := ex_log s @ [d], ex_lastChar := lastCharOf d\<rparr> else s)
      in s1\<lparr>ex_stderr := ex_stderr s1 @ d\<rparr>)"
| "exec_step escapeArray cpid name args opts s (Exit code) = s\<lparr>ex_exitCode := Some code\<rparr>"
| "exec_step escapeArray cpid name args opts s (Close st) =
     (let s1 = flush opts s;
          s2 = (if \<not> ignoreNonZeroExit opts \<and> st \<noteq> Some 0
                then resolve (Inl (newAbnormalExitError escapeArray name args st
                       (ex_stdout s1) (ex_stderr s1))) s1
                else s1)
      in resolve (Inr \<lparr>exitStatus = st, stdout = ex_stdout s2, stderr = ex_stderr s2\<rparr>) s2)"
| "exec_step escapeArray cpid name args opts s (SpawnError cause) =
     resolve (Inl (newProcessError escapeArray name args cause)) (flush opts s)"
| "exec_step escapeArray cpid name args opts s CancellationRequested =
     (if cancellationToken opts = Some False
      then cancel_exec escapeArray cpid name args opts s else s)"
| "exec_step escapeArray cpid name args opts s (TreeKillCallback err) =
     (if ex_treeKills s = 0 then s
      else resolve (Inl (newCancelledError escapeArray name args))
             (if err then s\<lparr>ex_kills := ex_kills s + 1\<rparr> else s))"

definition realExec ::
  "(string list \<Rightarrow> string) \<Rightarrow> nat option \<Rightarrow> string \<Rightarrow> string list \<Rightarrow> exec_options \<Rightarrow>
   proc_event list \<Rightarrow> exec_state" where
  "realExec escapeArray cpid name args opts evs =
     foldl (exec_step escapeArray cpid name args opts)
       (exec_start escapeArray cpid name args opts) evs"

text \<open>
  What \<^verbatim>\<open>childProcess.spawn\<close> does with a command is a parameter: it throws, or it
  returns a child.  Of the child the executor uses the process id and the three streams;
  Node leaves the streams undefined when the child could not be spawned.  Without them
  the executor throws a \<^verbatim>\<open>TypeError\<close>: at \<^verbatim>\<open>command.stdin.write\<close> when \<^verbatim>\<open>pipeStdin\<close> is
  written, at \<^verbatim>\<open>command.stdout.setEncoding\<close> otherwise.
\<close>

record child_process =
  child_pid :: "nat option"
  child_streams :: bool

datatype spawn_result = SpawnThrows string | Spawned child_process

definition stream_error :: "exec_options \<Rightarrow> string" where
  "stream_error opts =
     (if pipes_stdin opts then ''TypeError: command.stdin is undefined''
      else ''TypeError: command.stdout is undefined'')"

text \<open>
  \<^verbatim>\<open>exec\<close> calls \<^verbatim>\<open>execPtr\<close>, which is \<^verbatim>\<open>realExec\<close> unless a test has replaced it.
  Its promise is rejected with what the executor throws; no handler is registered then,
  and no event has an effect.  Otherwise it is the promise of the handlers.
\<close>

definition exec ::
  "(string \<Rightarrow> string list \<Rightarrow> spawn_result) \<Rightarrow> (string list \<Rightarrow> string) \<Rightarrow> string \<Rightarrow>
   string list \<Rightarrow> exec_options \<Rightarrow> proc_event list \<Rightarrow> exec_promise" where
  "exec spawn escapeArray name args opts evs =
     (case spawn name args of
        SpawnThrows err \<Rightarrow> Rejected (ThrownOther err)
      | Spawned child \<Rightarrow>
          if \<not> child_streams child then Rejected (ThrownOther (stream_error opts))
          else ex_promise (realExec escapeArray (child_pid child) name args opts evs))"

text \<open>\<^verbatim>\<open>execOrThrow\<close> awaits \<^verbatim>\<open>exec\<close> and throws the result when it is an \<^verbatim>\<open>Error\<close>.\<close>

definition execOrThrow ::
  "(string \<Rightarrow> string list \<Rightarrow> spawn_result) \<Rightarrow> (string list \<Rightarrow> string) \<Rightarrow> string \<Rightarrow>
   string list \<Rightarrow> exec_options \<Rightarrow> proc_event list \<Rightarrow> (exec_result, exec_thrown) settlement" where
  "execOrThrow spawn escapeArray name args opts evs =
     (case exec spawn escapeArray name args opts evs of
        Pending \<Rightarrow> Pending
      | Rejected x \<Rightarrow> Rejected x
      | Fulfilled (Inl e) \<Rightarrow> Rejected (ThrownExecError e)
      | Fulfilled (Inr r) \<Rightarrow> Fulfilled r)"

text \<open>
  Modelled from the spec: \<^verbatim>\<open>shutil.escapeArray\<close> is missing from the sources; the spec
  only calls its result a shell-escaped command string.  On words that need no quoting
  such a string is the words joined by spaces, and \<open>plain_words\<close> is that: it stands for
  the parameter \<open>escapeArray\<close> in the concrete runs below, which use such words only.
\<close>

definition plain_words :: "string list \<Rightarrow> string" where
  "plain_words ws = (case ws of [] \<Rightarrow> [] | w # rest \<Rightarrow> foldl (\<lambda>acc x. acc @ '' '' @ x) w rest)"

definition default_options :: exec_options where
  "default_options = \<lparr>logger = False, logStdout = False, ignoreNonZeroExit = False,
     pipeStdin = None, cancellationToken = None, treeKillWhenCancelling = False\<rparr>"


text \<open>The events of a child that runs undisturbed, and the output they carry.\<close>

fun is_output_or_exit :: "proc_event \<Rightarrow> bool" where
  "is_output_or_exit (StdoutData d) = True"
| "is_output_or_exit (StderrData d) = True"
| "is_output_or_exit (Exit code) = True"
| "is_output_or_exit _ = False"

fun stdout_of :: "proc_event list \<Rightarrow> string" where
  "stdout_of [] = []"
| "stdout_of (StdoutData d # evs) = d @ stdout_of evs"
| "stdout_of (_ # evs) = stdout_of evs"

fun stderr_of :: "proc_event list \<Rightarrow> string" where
  "stderr_of [] = []"
| "stderr_of (StderrData d # evs) = d @ stderr_of evs"
| "stderr_of (_ # evs) = stderr_of evs"

definition newline_terminated :: "string \<Rightarrow> bool" where
  "newline_terminated text = (text \<noteq> [] \<and> [last text] = newline)"

subsection \<open>Facts about the executor\<close>

lemma resolve_fields [simp]:
  "ex_stdout (resolve r s) = ex_stdout s" "ex_stderr (resolve r s) = ex_stderr s"
  "ex_log (resolve r s) = ex_log s" "ex_lastChar (resolve r s) = ex_lastChar s"
  by (simp_all add: resolve_def)

lemma resolve_pending: "ex_promise s = Pending \<Longrightarrow> ex_promise (resolve r s) = Fulfilled r"
  by (simp add: resolve_def)

lemma resolve_settled: "ex_promise s \<noteq> Pending \<Longrightarrow> resolve r s = s"
  by (simp add: resolve_def)

lemma resolve_not_rejected:
  "(\<forall>e. ex_promise s \<noteq> Rejected e) \<Longrightarrow> ex_promise (resolve r s) \<noteq> Rejected e'"
  by (simp add: resolve_def)

lemma flush_fields [simp]:
  "ex_stdout (flush opts s) = ex_stdout s" "ex_stderr (flush opts s) = ex_stderr s"
  "ex_promise (flush opts s) = ex_promise s"
  by (simp_all add: flush_def)

lemma step_not_rejected:
  assumes "\<forall>e. ex_promise s \<noteq> Rejected e"
  shows "ex_promise (exec_step esc cpid name args opts s ev) \<noteq> Rejected e'"
  using assms
  by (cases ev) (auto simp: Let_def resolve_def cancel_exec_def)

lemma foldl_not_rejected:
  "\<forall>e. ex_promise s \<noteq> Rejected e \<Longrightarrow>
   ex_promise (foldl (exec_step esc cpid name args opts) s evs) \<noteq> Rejected e'"
proof (induction evs arbitrary: s e')
  case Nil
  then show ?case by simp
next
  case (Cons ev evs)
  have "\<forall>e. ex_promise (exec_step esc cpid name args opts s ev) \<noteq> Rejected e"
    using step_not_rejected [OF Cons.prems] by blast
  from Cons.IH [OF this] show ?case by simp
qed

lemma start_not_rejected: "ex_promise (exec_start esc cpid name args opts) \<noteq> Rejected e"
  by (simp add: exec_start_def cancel_exec_def resolve_def Let_def)

lemma step_settled:
  "ex_promise s \<noteq> Pending \<Longrightarrow>
   ex_promise (exec_step esc cpid name args opts s ev) = ex_promise s"
  by (cases ev) (auto simp: Let_def resolve_def cancel_exec_def)

lemma foldl_settled:
  "ex_promise s \<noteq> Pending \<Longrightarrow>
   ex_promise (foldl (exec_step esc cpid name args opts) s evs) = ex_promise s"
  by (induction evs arbitrary: s) (auto simp: step_settled)

lemma foldl_output:
  "list_all is_output_or_exit ds \<Longrightarrow>
   ex_promise (foldl (exec_step esc cpid name args opts) s ds) = ex_promise s \<and>
   ex_stdout (foldl (exec_step esc cpid name args opts) s ds) = ex_stdout s @ stdout_of ds \<and>
   ex_stderr (foldl (exec_step esc cpid name args opts) s ds) = ex_stderr s @ stderr_of ds"
proof (induction ds arbitrary: s)
  case Nil
  then show ?case by simp
next
  case (Cons ev ds)
  then have rest: "list_all is_output_or_exit ds" and ev: "is_output_or_exit ev" by simp_all
  from ev Cons.IH [OF rest, of "exec_step esc cpid name args opts s ev"] show ?case
    by (cases ev) (simp_all add: Let_def)
qed

lemma close_resolves:
  assumes "ex_promise s = Pending"
  shows "ex_promise (exec_step esc cpid name args opts s (Close st)) =
     Fulfilled (if \<not> ignoreNonZeroExit opts \<and> st \<noteq> Some 0
        then Inl (newAbnormalExitError esc name args st (ex_stdout s) (ex_stderr s))
        else Inr \<lparr>exitStatus = st, stdout = ex_stdout s, stderr = ex_stderr s\<rparr>)"
  using assms by (simp add: Let_def resolve_def)

lemma close_settles:
  "ex_promise (exec_step esc cpid name args opts s (Close st)) \<noteq> Pending"
  by (simp add: Let_def resolve_def)

lemma foldl_close_settles:
  "Close st \<in> set evs \<Longrightarrow>
   ex_promise (foldl (exec_step esc cpid name args opts) s evs) \<noteq> Pending"
proof (induction evs arbitrary: s)
  case Nil
  then show ?case by simp
next
  case (Cons ev evs)
  show ?case
  proof (cases "ev = Close st")
    case True
    have "ex_promise (exec_step esc cpid name args opts s ev) \<noteq> Pending"
      using close_settles [of esc cpid name args opts s st] True by simp
    with foldl_settled [OF this, of esc cpid name args opts evs] show ?thesis by simp
  next
    case False
    with Cons.prems have "Close st \<in> set evs" by simp
    from Cons.IH [OF this] show ?thesis by simp
  qed
qed

lemma start_pending:
  "cancellationToken opts \<noteq> Some True \<Longrightarrow>
   ex_promise (exec_start esc cpid name args opts) = Pending \<and>
   ex_stdout (exec_start esc cpid name args opts) = [] \<and>
   ex_stderr (exec_start esc cpid name args opts) = []"
  by (simp add: exec_start_def)

lemma exec_normal_completion:
  assumes "list_all is_output_or_exit ds" and "cancellationToken opts \<noteq> Some True"
  shows "ex_promise (realExec esc cpid name args opts (ds @ Close st # rest)) =
     Fulfilled (if \<not> ignoreNonZeroExit opts \<and> st \<noteq> Some 0
        then Inl (AbnormalExitError
               (quoted (esc (name # args)) @ '' failed, exit status: '' @ show_status st)
               st (stdout_of ds) (stderr_of ds))
        else Inr \<lparr>exitStatus = st, stdout = stdout_of ds, stderr = stderr_of ds\<rparr>)"
proof -
  let ?step = "exec_step esc cpid name args opts"
  let ?s0 = "exec_start esc cpid name args opts"
  let ?s1 = "foldl ?step ?s0 ds"
  from foldl_output [OF assms(1), of esc cpid name args opts ?s0] start_pending [OF assms(2)]
  have s1: "ex_promise ?s1 = Pending" "ex_stdout ?s1 = stdout_of ds" "ex_stderr ?s1 = stderr_of ds"
    by simp_all
  let ?s2 = "?step ?s1 (Close st)"
  from close_resolves [OF s1(1), of esc cpid name args opts st] s1(2,3)
  have s2: "ex_promise ?s2 =
     Fulfilled (if \<not> ignoreNonZeroExit opts \<and> st \<noteq> Some 0
        then Inl (newAbnormalExitError esc name args st (stdout_of ds) (stderr_of ds))
        else Inr \<lparr>exitStatus = st, stdout = stdout_of ds, stderr = stderr_of ds\<rparr>)"
    by simp
  then have "ex_promise ?s2 \<noteq> Pending" by simp
  from foldl_settled [OF this, of esc cpid name args opts rest] s2
  show ?thesis
    by (simp add: realExec_def newAbnormalExitError_def)
qed

section \<open>Properties of the process executor\<close>

subsection \<open>When spawn returns a child\<close>

lemma exec_spawned:
  assumes "spawn name args = Spawned child" and "child_streams child"
  shows "exec spawn esc name args opts evs =
     ex_promise (realExec esc (child_pid child) name args opts evs)"
  using assms by (simp add: exec_def)

lemma exec_contract_when_spawned:
  assumes "spawn name args = Spawned child" and "child_streams child"
  shows "(\<forall>x. exec spawn esc name args opts evs \<noteq> Rejected x) \<and>
   ((\<exists>st. Close st \<in> set evs) \<longrightarrow> (\<exists>r. exec spawn esc name args opts evs = Fulfilled r)) \<and>
   (list_all is_output_or_exit ds \<and> cancellationToken opts \<noteq> Some True \<longrightarrow>
      exec spawn esc name args opts (ds @ Close st # rest) =
        Fulfilled (if \<not> ignoreNonZeroExit opts \<and> st \<noteq> Some 0
          then Inl (AbnormalExitError
                 (quoted (esc (name # args)) @ '' failed, exit status: '' @ show_status st)
                 st (stdout_of ds) (stderr_of ds))
          else Inr \<lparr>exitStatus = st, stdout = stdout_of ds, stderr = stderr_of ds\<rparr>)) \<and>
   (\<forall>r. exec spawn esc name args opts evs = Fulfilled (Inr r) \<longrightarrow>
      execOrThrow spawn esc name args opts evs = Fulfilled r) \<and>
   (\<forall>e. exec spawn esc name args opts evs = Fulfilled (Inl e) \<longrightarrow>
      execOrThrow spawn esc name args opts evs = Rejected (ThrownExecError e))"
proof -
  let ?cpid = "child_pid child"
  note sp = exec_spawned [where spawn = spawn and name = name and args = args and child = child
      and esc = esc and opts = opts, OF assms]
  have nr: "\<forall>x. exec spawn esc name args opts evs \<noteq> Rejected x"
    unfolding sp realExec_def
    using foldl_not_rejected [of "exec_start esc ?cpid name args opts" esc ?cpid name args opts evs]
      start_not_rejected [of esc ?cpid name args opts]
    by blast
  have cl: "(\<exists>st. Close st \<in> set evs) \<longrightarrow> (\<exists>r. exec spawn esc name args opts evs = Fulfilled r)"
  proof
    assume "\<exists>st. Close st \<in> set evs"
    then obtain st where "Close st \<in> set evs" ..
    from foldl_close_settles [OF this, of esc ?cpid name args opts "exec_start esc ?cpid name args opts"]
    have "exec spawn esc name args opts evs \<noteq> Pending"
      by (simp add: sp realExec_def)
    with nr show "\<exists>r. exec spawn esc name args opts evs = Fulfilled r"
      by (cases "exec spawn esc name args opts evs") auto
  qed
  have ot: "(\<forall>r. exec spawn esc name args opts evs = Fulfilled (Inr r) \<longrightarrow>
      execOrThrow spawn esc name args opts evs = Fulfilled r) \<and>
   (\<forall>e. exec spawn esc name args opts evs = Fulfilled (Inl e) \<longrightarrow>
      execOrThrow spawn esc name args opts evs = Rejected (ThrownExecError e))"
    by (simp add: execOrThrow_def)
  from nr cl ot exec_normal_completion [of ds opts esc ?cpid name args st rest] sp
  show ?thesis by simp
qed

text \<open>The promise is rejected exactly on the paths on which the executor throws.\<close>

lemma exec_rejected_iff:
  "exec spawn esc name args opts evs = Rejected x \<longleftrightarrow>
     (\<exists>err. x = ThrownOther err \<and>
        (spawn name args = SpawnThrows err \<or>
         (\<exists>child. spawn name args = Spawned child \<and> \<not> child_streams child \<and>
            err = stream_error opts)))"
proof (cases "spawn name args")
  case (SpawnThrows err)
  then show ?thesis by (auto simp: exec_def)
next
  case (Spawned child)
  show ?thesis
  proof (cases "child_streams child")
    case True
    with Spawned exec_contract_when_spawned [where spawn = spawn and name = name and args = args
        and child = child and esc = esc and opts = opts and evs = evs, OF Spawned True]
    show ?thesis by auto
  next
    case False
    with Spawned show ?thesis by (auto simp: exec_def)
  qed
qed

subsection \<open>When spawn throws\<close>

text \<open>
  \<^verbatim>\<open>childProcess.spawn\<close> is Node's.  It checks its arguments before it starts anything
  and throws when the command is the empty string or when the command or an argument
  contains a null byte; \<open>node_spawn\<close> does that and otherwise returns a child with its
  streams.
\<close>

definition has_null_byte :: "string \<Rightarrow> bool" where
  "has_null_byte text = (CHR 0x00 \<in> set text)"

definition node_spawn :: "string \<Rightarrow> string list \<Rightarrow> spawn_result" where
  "node_spawn name args =
     (if name = [] then SpawnThrows ''TypeError [ERR_INVALID_ARG_VALUE]: The argument file cannot be empty''
      else if has_null_byte name \<or> list_ex has_null_byte args
      then SpawnThrows ''TypeError [ERR_INVALID_ARG_VALUE]: must be a string without null bytes''
      else Spawned \<lparr>child_pid = Some 4242, child_streams = True\<rparr>)"

text \<open>
  C4 at the call \<^verbatim>\<open>exec('', [])\<close>: \<^verbatim>\<open>spawn\<close> throws inside the promise executor, so the
  promise of \<open>exec\<close> is rejected with the \<^verbatim>\<open>TypeError\<close> instead of being resolved with an
  error, against the documentation of \<^verbatim>\<open>exec\<close> (errors are always returned and never
  thrown); and \<open>execOrThrow\<close> throws that \<^verbatim>\<open>TypeError\<close>, which is
  not an error \<open>exec\<close> returned.
\<close>

theorem exec_rejects_on_empty_name:
  "exec node_spawn plain_words [] [] default_options [] =
     Rejected (ThrownOther ''TypeError [ERR_INVALID_ARG_VALUE]: The argument file cannot be empty'') \<and>
   execOrThrow node_spawn plain_words [] [] default_options [] =
     Rejected (ThrownOther ''TypeError [ERR_INVALID_ARG_VALUE]: The argument file cannot be empty'')"
  by (simp add: exec_def execOrThrow_def node_spawn_def)

text \<open>The rest of the contract at a command that prints to both streams and exits with
  status 1, with and without \<open>ignoreNonZeroExit\<close>.\<close>

lemma exec_contract_example:
  "exec node_spawn plain_words ''sh'' [''-c'', ''x''] default_options
     ([StdoutData ''foo'', StderrData ''bar''] @ Close (Some 1) # []) =
     Fulfilled (Inl (AbnormalExitError
        (quoted ''sh -c x'' @ '' failed, exit status: 1'') (Some 1) ''foo'' ''bar'')) \<and>
   execOrThrow node_spawn plain_words ''sh'' [''-c'', ''x''] default_options
     ([StdoutData ''foo'', StderrData ''bar''] @ Close (Some 1) # []) =
     Rejected (ThrownExecError (AbnormalExitError
        (quoted ''sh -c x'' @ '' failed, exit status: 1'') (Some 1) ''foo'' ''bar'')) \<and>
   exec node_spawn plain_words ''sh'' [''-c'', ''x''] (default_options\<lparr>ignoreNonZeroExit := True\<rparr>)
     ([StdoutData ''foo'', StderrData ''bar''] @ Close (Some 1) # []) =
     Fulfilled (Inr \<lparr>exitStatus = Some 1, stdout = ''foo'', stderr = ''bar''\<rparr>) \<and>
   execOrThrow node_spawn plain_words ''sh'' [''-c'', ''x''] (default_options\<lparr>ignoreNonZeroExit := True\<rparr>)
     ([StdoutData ''foo'', StderrData ''bar''] @ Close (Some 1) # []) =
     Fulfilled \<lparr>exitStatus = Some 1, stdout = ''foo'', stderr = ''bar''\<rparr>"
proof -
  let ?ds = "[StdoutData ''foo'', StderrData ''bar'']"
  let ?evs = "?ds @ Close (Some 1) # []"
  let ?ign = "default_options\<lparr>ignoreNonZeroExit := True\<rparr>"
  let ?child = "\<lparr>child_pid = Some 4242, child_streams = True\<rparr>"
  have sp: "node_spawn ''sh'' [''-c'', ''x''] = Spawned ?child"
    by (simp add: node_spawn_def has_null_byte_def)
  have st: "child_streams ?child" by simp
  have h1: "list_all is_output_or_exit ?ds" by simp
  have h2: "cancellationToken default_options \<noteq> Some True"
    and h3: "cancellationToken ?ign \<noteq> Some True"
    and o1: "\<not> ignoreNonZeroExit default_options" and o2: "ignoreNonZeroExit ?ign"
    by (simp_all add: default_options_def)
  note T1 = exec_contract_when_spawned [where spawn = node_spawn and name = "''sh''"
      and args = "[''-c'', ''x'']" and child = ?child and esc = plain_words
      and opts = default_options and evs = ?evs and ds = ?ds and st = "Some 1" and rest = "[]",
      OF sp st]
  note T2 = exec_contract_when_spawned [where spawn = node_spawn and name = "''sh''"
      and args = "[''-c'', ''x'']" and child = ?child and esc = plain_words
      and opts = ?ign and evs = ?evs and ds = ?ds and st = "Some 1" and rest = "[]",
      OF sp st]
  from T1 h1 h2 o1 have a: "exec node_spawn plain_words ''sh'' [''-c'', ''x''] default_options ?evs =
     Fulfilled (Inl (AbnormalExitError
        (quoted ''sh -c x'' @ '' failed, exit status: 1'') (Some 1) ''foo'' ''bar''))"
    by (simp add: plain_words_def show_status_def show_nat.simps)
  with T1 have b: "execOrThrow node_spawn plain_words ''sh'' [''-c'', ''x''] default_options ?evs =
     Rejected (ThrownExecError (AbnormalExitError
        (quoted ''sh -c x'' @ '' failed, exit status: 1'') (Some 1) ''foo'' ''bar''))"
    by blast
  from T2 h1 h3 o2 have c: "exec node_spawn plain_words ''sh'' [''-c'', ''x''] ?ign ?evs =
     Fulfilled (Inr \<lparr>exitStatus = Some 1, stdout = ''foo'', stderr = ''bar''\<rparr>)"
    by simp
  with T2 have d: "execOrThrow node_spawn plain_words ''sh'' [''-c'', ''x''] ?ign ?evs =
     Fulfilled \<lparr>exitStatus = Some 1, stdout = ''foo'', stderr = ''bar''\<rparr>"
    by blast
  from a b c d show ?thesis by blast
qed

subsection \<open>What has been logged\<close>

text \<open>Something has been logged, and when \<open>lastChar\<close> is the empty string or a newline the
  text logged so far ends with a newline.\<close>

definition log_inv :: "exec_options \<Rightarrow> exec_state \<Rightarrow> bool" where
  "log_inv opts s =
     (concat (ex_log s) \<noteq> [] \<and>
      (ex_lastChar s = Some [] \<or> ex_lastChar s = Some newline \<longrightarrow>
         newline_terminated (concat (ex_log s))))"

lemma newline_terminated_append:
  "d \<noteq> [] \<Longrightarrow> [last d] = newline \<Longrightarrow> newline_terminated (text @ d)"
  by (simp add: newline_terminated_def)

lemma log_inv_start: "logger opts \<Longrightarrow> log_inv opts (exec_start esc cpid name args opts)"
  by (simp add: log_inv_def exec_start_def cancel_exec_def resolve_def Let_def
      newline_terminated_def newline_def)

lemma log_inv_data:
  assumes "log_inv opts s"
  shows "log_inv opts (s\<lparr>ex_log := ex_log s @ [d], ex_lastChar := lastCharOf d\<rparr>)"
proof (cases "d = []")
  case True
  with assms show ?thesis by (simp add: log_inv_def lastCharOf_def)
next
  case False
  with assms show ?thesis
    by (auto simp: log_inv_def lastCharOf_def newline_terminated_def newline_def)
qed

lemma log_inv_flush: "log_inv opts s \<Longrightarrow> log_inv opts (flush opts s)"
  by (auto simp: log_inv_def flush_def newline_terminated_def newline_def)

lemma log_inv_resolve: "log_inv opts s \<Longrightarrow> log_inv opts (resolve r s)"
  by (simp add: log_inv_def)

lemma log_inv_step:
  assumes "log_inv opts s"
  shows "log_inv opts (exec_step esc cpid name args opts s ev)"
proof (cases ev)
  case (StdoutData d)
  with log_inv_data [OF assms, of d] assms show ?thesis
    by (simp add: Let_def log_inv_def)
next
  case (StderrData d)
  with log_inv_data [OF assms, of d] assms show ?thesis
    by (simp add: Let_def log_inv_def)
next
  case (Exit code)
  with assms show ?thesis by (simp add: log_inv_def)
next
  case (Close st)
  with log_inv_flush [OF assms] show ?thesis
    by (simp add: Let_def log_inv_def)
next
  case (SpawnError cause)
  with log_inv_flush [OF assms] show ?thesis
    by (simp add: log_inv_def)
next
  case CancellationRequested
  with assms show ?thesis by (simp add: log_inv_def cancel_exec_def)
next
  case (TreeKillCallback err)
  with assms show ?thesis by (simp add: log_inv_def)
qed

lemma log_inv_foldl:
  "log_inv opts s \<Longrightarrow> log_inv opts (foldl (exec_step esc cpid name args opts) s evs)"
  by (induction evs arbitrary: s) (auto simp: log_inv_step)

lemma log_inv_run: "logger opts \<Longrightarrow> log_inv opts (realExec esc cpid name args opts evs)"
  by (simp add: realExec_def log_inv_foldl log_inv_start)

lemma flush_terminates:
  assumes "logger opts" and "log_inv opts s"
  shows "newline_terminated (concat (ex_log (flush opts s)))"
proof (cases "ex_lastChar s = Some [] \<or> ex_lastChar s = Some newline")
  case True
  with assms(2) show ?thesis by (auto simp: log_inv_def flush_def)
next
  case False
  with assms(1) show ?thesis
    by (simp add: flush_def newline_terminated_def newline_def)
qed

text \<open>
  C5, as the code has it.  With a logger, once the \<open>close\<close> handler (or the \<open>error\<close>
  handler) has run, the text appended to the logger so far ends with a newline; the data
  chunks themselves are appended as they arrive, stderr always and stdout when
  \<open>logStdout\<close> is set.
\<close>

theorem exec_log_newline_on_close:
  assumes "logger opts"
  shows "newline_terminated (concat (ex_log (realExec esc cpid name args opts (evs @ [Close st])))) \<and>
    newline_terminated (concat (ex_log (realExec esc cpid name args opts (evs @ [SpawnError cause])))) \<and>
    ex_log (realExec esc cpid name args opts (evs @ [StderrData d])) =
      ex_log (realExec esc cpid name args opts evs) @ [d] \<and>
    (logStdout opts \<longrightarrow>
       ex_log (realExec esc cpid name args opts (evs @ [StdoutData d])) =
         ex_log (realExec esc cpid name args opts evs) @ [d])"
proof -
  let ?s = "realExec esc cpid name args opts evs"
  have step: "\<And>ev. realExec esc cpid name args opts (evs @ [ev]) =
      exec_step esc cpid name args opts ?s ev"
    by (simp add: realExec_def)
  note fl = flush_terminates [OF assms log_inv_run [OF assms, of esc cpid name args evs]]
  have a: "newline_terminated (concat (ex_log (realExec esc cpid name args opts (evs @ [Close st]))))"
    using fl by (simp add: step Let_def)
  have b: "newline_terminated
      (concat (ex_log (realExec esc cpid name args opts (evs @ [SpawnError cause]))))"
    using fl by (simp add: step)
  have c: "ex_log (realExec esc cpid name args opts (evs @ [StderrData d])) = ex_log ?s @ [d]"
    using assms by (simp add: step Let_def)
  have d: "logStdout opts \<longrightarrow>
       ex_log (realExec esc cpid name args opts (evs @ [StdoutData d])) = ex_log ?s @ [d]"
    using assms by (simp add: step Let_def)
  from a b c d show ?thesis by blast
qed

definition logging_options :: exec_options where
  "logging_options = default_options\<lparr>logger := True, logStdout := True\<rparr>"

lemma exec_log_example:
  "ex_log (realExec plain_words (Some 4242) ''printf'' [''foo''] logging_options
     [StderrData ''foo'', Close (Some 0)]) = [''printf foo'' @ newline, ''foo'', newline]"
  by (simp add: realExec_def exec_start_def logging_options_def default_options_def Let_def
      resolve_def flush_def plain_words_def lastCharOf_def newline_def)

text \<open>C5 as stated fails: the chunk \<open>foo\<close> is passed to \<open>append\<close> as it is, without a
  newline.\<close>

theorem exec_log_chunk_counterexample:
  "ex_log (realExec plain_words (Some 4242) ''printf'' [''foo''] logging_options
     [StderrData ''foo'', Close (Some 0)]) ! 1 = ''foo'' \<and>
   \<not> newline_terminated (ex_log (realExec plain_words (Some 4242) ''printf'' [''foo'']
     logging_options [StderrData ''foo'', Close (Some 0)]) ! 1)"
  by (simp add: exec_log_example newline_terminated_def newline_def)

text \<open>C5 at the same run: the whole log ends with the newline appended on close.\<close>

theorem exec_log_newline_on_close_witness:
  "logger logging_options \<and>
   newline_terminated (concat (ex_log (realExec plain_words (Some 4242) ''printf'' [''foo'']
     logging_options ([StderrData ''foo''] @ [Close (Some 0)])))) \<and>
   concat (ex_log (realExec plain_words (Some 4242) ''printf'' [''foo'']
     logging_options ([StderrData ''foo''] @ [Close (Some 0)]))) = ''printf foo'' @ newline @ ''foo'' @ newline"
proof -
  have h: "logger logging_options" by (simp add: logging_options_def default_options_def)
  from exec_log_newline_on_close [OF h, of plain_words "Some 4242" "''printf''" "[''foo'']"
      "[StderrData ''foo'']" "Some 0"]
  have "newline_terminated (concat (ex_log (realExec plain_words (Some 4242) ''printf'' [''foo'']
     logging_options ([StderrData ''foo''] @ [Close (Some 0)]))))" by blast
  with h exec_log_example show ?thesis by simp
qed

section \<open>CacheOnSuccess\<close>

text \<open>
  The values a job may resolve to, with JavaScript's truthiness: \<^verbatim>\<open>getOrThrow\<close> tests
  \<^verbatim>\<open>if (this.value)\<close>.
\<close>

datatype jsval = Undefined | Null | Bool bool | Num int | NaN | Str string | Obj nat

fun truthy :: "jsval \<Rightarrow> bool" where
  "truthy Undefined = False"
| "truthy Null = False"
| "truthy (Bool b) = b"
| "truthy (Num n) = (n \<noteq> 0)"
| "truthy NaN = False"
| "truthy (Str s) = (s \<noteq> [])"
| "truthy (Obj a) = True"

text \<open>
  \<^verbatim>\<open>class CacheOnSuccess<T>\<close>: the fields \<^verbatim>\<open>value\<close> and \<^verbatim>\<open>promise\<close>.  The promises made
  by \<^verbatim>\<open>this.job()\<close> are kept in a list, one per invocation, and \<^verbatim>\<open>promise\<close> refers to
  one of them (\<open>None\<close> is \<^verbatim>\<open>undefined\<close>).  For each call of \<^verbatim>\<open>getOrThrow\<close> the model
  records what the call returned: the cached value, or a promise that settles as the job
  promise \<open>n\<close> does (the call returned \<^verbatim>\<open>this.promise\<close>, or it awaits the job it started
  and returns its value or rethrows its error).
\<close>

datatype returned = Direct jsval | Follows nat

record 'e cache =
  co_value :: jsval
  co_promise :: "nat option"
  co_jobs :: "(jsval, 'e) settlement list"
  co_returned :: "returned list"

definition co_init :: "'e cache" where
  "co_init = \<lparr>co_value = Undefined, co_promise = None, co_jobs = [], co_returned = []\<rparr>"

text \<open>\<^verbatim>\<open>getOrThrow()\<close> up to its \<^verbatim>\<open>await\<close>.\<close>

definition getOrThrow :: "'e cache \<Rightarrow> 'e cache" where
  "getOrThrow s =
     (if truthy (co_value s) then s\<lparr>co_returned := co_returned s @ [Direct (co_value s)]\<rparr>
      else case co_promise s of
        Some n \<Rightarrow> s\<lparr>co_returned := co_returned s @ [Follows n]\<rparr>
      | None \<Rightarrow>
          s\<lparr>co_promise := Some (length (co_jobs s)),
            co_jobs := co_jobs s @ [Pending],
            co_returned := co_returned s @ [Follows (length (co_jobs s))]\<rparr>)"

text \<open>
  The job promise \<open>n\<close> settles and the call that started it resumes: on success it stores
  the value; on failure the \<^verbatim>\<open>catch\<close> block clears \<^verbatim>\<open>value\<close> and \<^verbatim>\<open>promise\<close> and
  rethrows.  A promise settles once: the event has no effect on a settled promise.
\<close>

definition job_settles :: "nat \<Rightarrow> (jsval, 'e) outcome \<Rightarrow> 'e cache \<Rightarrow> 'e cache" where
  "job_settles n out s =
     (if n < length (co_jobs s) \<and> co_jobs s ! n = Pending
      then case out of
          Returned v \<Rightarrow> s\<lparr>co_jobs := (co_jobs s)[n := Fulfilled v], co_value := v\<rparr>
        | Threw e \<Rightarrow>
            s\<lparr>co_jobs := (co_jobs s)[n := Rejected e], co_value := Undefined, co_promise := None\<rparr>
      else s)"

datatype 'e co_event = GetOrThrow | JobSettles nat "(jsval, 'e) outcome"

fun co_step :: "'e cache \<Rightarrow> 'e co_event \<Rightarrow> 'e cache" where
  "co_step s GetOrThrow = getOrThrow s"
| "co_step s (JobSettles n out) = job_settles n out s"

definition co_run :: "'e co_event list \<Rightarrow> 'e cache" where
  "co_run evs = foldl co_step co_init evs"

text \<open>How the promise returned by the \<open>k\<close>-th call of \<^verbatim>\<open>getOrThrow\<close> stands, and how often
  the job has been invoked.\<close>

definition result_of :: "'e cache \<Rightarrow> nat \<Rightarrow> (jsval, 'e) settlement" where
  "result_of s k = (case co_returned s ! k of Direct v \<Rightarrow> Fulfilled v | Follows n \<Rightarrow> co_jobs s ! n)"

definition invocations :: "'e cache \<Rightarrow> nat" where
  "invocations s = length (co_jobs s)"

subsection \<open>The invariant of the cache\<close>

text \<open>Every job promise but the last is rejected; without a current promise all are
  rejected and no value is stored; the current promise is the last one, pending with no
  value stored or fulfilled with the stored value.\<close>

definition co_inv :: "'e cache \<Rightarrow> bool" where
  "co_inv s =
     ((\<forall>m. Suc m < length (co_jobs s) \<longrightarrow> (\<exists>e. co_jobs s ! m = Rejected e)) \<and>
      (case co_promise s of
         None \<Rightarrow> co_value s = Undefined \<and> (\<forall>m < length (co_jobs s). \<exists>e. co_jobs s ! m = Rejected e)
       | Some n \<Rightarrow> Suc n = length (co_jobs s) \<and>
           (co_jobs s ! n = Pending \<and> co_value s = Undefined \<or>
            co_jobs s ! n = Fulfilled (co_value s))))"

definition done_state :: "nat \<Rightarrow> jsval \<Rightarrow> 'e cache \<Rightarrow> bool" where
  "done_state n v s =
     (n < length (co_jobs s) \<and> co_jobs s ! n = Fulfilled v \<and> co_promise s = Some n \<and>
      co_value s = v \<and> (\<forall>m < length (co_jobs s). co_jobs s ! m \<noteq> Pending))"

lemma co_inv_init: "co_inv co_init"
  by (simp add: co_inv_def co_init_def)

lemma co_inv_getOrThrow: "co_inv s \<Longrightarrow> co_inv (getOrThrow s)"
  unfolding co_inv_def getOrThrow_def
  by (auto simp: nth_append less_Suc_eq split: option.splits)

lemma co_pending_is_current:
  assumes "co_inv s" and "n < length (co_jobs s)" and "co_jobs s ! n = Pending"
  shows "Suc n = length (co_jobs s) \<and> co_promise s = Some n \<and> co_value s = Undefined"
proof -
  have last: "Suc n = length (co_jobs s)"
  proof (rule ccontr)
    assume "Suc n \<noteq> length (co_jobs s)"
    with assms(2) have "Suc n < length (co_jobs s)" by simp
    with assms(1) obtain e where "co_jobs s ! n = Rejected e"
      unfolding co_inv_def by blast
    with assms(3) show False by simp
  qed
  show ?thesis
  proof (cases "co_promise s")
    case None
    with assms(1,2) obtain e where "co_jobs s ! n = Rejected e"
      unfolding co_inv_def by auto
    with assms(3) show ?thesis by simp
  next
    case (Some k)
    with assms(1) last have "k = n" unfolding co_inv_def by auto
    with Some assms(1,3) last show ?thesis unfolding co_inv_def by auto
  qed
qed

lemma co_inv_job_settles:
  assumes "co_inv s"
  shows "co_inv (job_settles n out s)"
proof (cases "n < length (co_jobs s) \<and> co_jobs s ! n = Pending")
  case False
  with assms show ?thesis by (auto simp: job_settles_def)
next
  case True
  with co_pending_is_current [OF assms, of n]
  have cur: "Suc n = length (co_jobs s)" "co_promise s = Some n" "co_value s = Undefined"
    by simp_all
  have old: "\<forall>m. Suc m < length (co_jobs s) \<longrightarrow> (\<exists>e. co_jobs s ! m = Rejected e)"
    using assms unfolding co_inv_def by blast
  show ?thesis
  proof (cases out)
    case (Returned v)
    with True cur old show ?thesis
      unfolding co_inv_def job_settles_def by (auto simp: nth_list_update)
  next
    case (Threw e)
    have "\<forall>m < length (co_jobs s). \<exists>e'. (co_jobs s)[n := Rejected e] ! m = Rejected e'"
    proof (intro allI impI)
      fix m assume m: "m < length (co_jobs s)"
      show "\<exists>e'. (co_jobs s)[n := Rejected e] ! m = Rejected e'"
      proof (cases "m = n")
        case True
        with m show ?thesis by simp
      next
        case False
        with m cur(1) have "Suc m < length (co_jobs s)" by simp
        with old False show ?thesis by simp
      qed
    qed
    with Threw True show ?thesis
      unfolding co_inv_def job_settles_def by simp
  qed
qed

lemma co_inv_step: "co_inv s \<Longrightarrow> co_inv (co_step s ev)"
  by (cases ev) (simp_all add: co_inv_getOrThrow co_inv_job_settles)

lemma co_inv_foldl: "co_inv s \<Longrightarrow> co_inv (foldl co_step s evs)"
  by (induction evs arbitrary: s) (auto simp: co_inv_step)

lemma co_inv_run: "co_inv (co_run evs)"
  by (simp add: co_run_def co_inv_foldl co_inv_init)

lemma co_inv_done:
  assumes "co_inv s" and "n < length (co_jobs s)" and "co_jobs s ! n = Fulfilled v"
  shows "done_state n v s"
proof -
  have last: "Suc n = length (co_jobs s)"
  proof (rule ccontr)
    assume "Suc n \<noteq> length (co_jobs s)"
    with assms(2) have "Suc n < length (co_jobs s)" by simp
    with assms(1) obtain e where "co_jobs s ! n = Rejected e"
      unfolding co_inv_def by blast
    with assms(3) show False by simp
  qed
  show ?thesis
  proof (cases "co_promise s")
    case None
    with assms show ?thesis unfolding co_inv_def by auto
  next
    case (Some k)
    with assms(1) last have k: "k = n" unfolding co_inv_def by auto
    have "\<forall>m < length (co_jobs s). co_jobs s ! m \<noteq> Pending"
    proof (intro allI impI)
      fix m assume m: "m < length (co_jobs s)"
      show "co_jobs s ! m \<noteq> Pending"
      proof (cases "m = n")
        case True
        with assms(3) show ?thesis by simp
      next
        case False
        with m last have "Suc m < length (co_jobs s)" by simp
        with assms(1) obtain e where "co_jobs s ! m = Rejected e"
          unfolding co_inv_def by blast
        then show ?thesis by simp
      qed
    qed
    with Some k assms show ?thesis unfolding co_inv_def done_state_def by auto
  qed
qed

lemma done_step:
  assumes "done_state n v s"
  shows "done_state n v (co_step s ev) \<and> co_jobs (co_step s ev) = co_jobs s \<and>
     (co_returned (co_step s ev) = co_returned s \<or>
      co_returned (co_step s ev) = co_returned s @ [Direct v] \<or>
      co_returned (co_step s ev) = co_returned s @ [Follows n])"
proof (cases ev)
  case GetOrThrow
  with assms show ?thesis
    by (auto simp: done_state_def getOrThrow_def)
next
  case (JobSettles m out)
  with assms have "co_step s ev = s"
    by (auto simp: done_state_def job_settles_def)
  with assms show ?thesis by simp
qed

lemma result_of_same:
  "co_returned s' ! k = co_returned s ! k \<Longrightarrow> co_jobs s' = co_jobs s \<Longrightarrow>
   result_of s' k = result_of s k"
  by (simp add: result_of_def split: returned.splits)

lemma done_foldl:
  assumes "done_state n v s"
  shows "done_state n v (foldl co_step s evs) \<and> co_jobs (foldl co_step s evs) = co_jobs s \<and>
     (\<forall>k. length (co_returned s) \<le> k \<and> k < length (co_returned (foldl co_step s evs)) \<longrightarrow>
        result_of (foldl co_step s evs) k = Fulfilled v)"
proof (induction evs rule: rev_induct)
  case Nil
  with assms show ?case by auto
next
  case (snoc ev evs)
  let ?t = "foldl co_step s evs"
  from snoc have t: "done_state n v ?t" and jobs: "co_jobs ?t = co_jobs s"
    and res: "\<forall>k. length (co_returned s) \<le> k \<and> k < length (co_returned ?t) \<longrightarrow>
        result_of ?t k = Fulfilled v"
    by blast+
  note st = done_step [OF t, of ev]
  from t have nv: "co_jobs ?t ! n = Fulfilled v" by (simp add: done_state_def)
  from st have j': "co_jobs (co_step ?t ev) = co_jobs ?t" by blast
  have "\<forall>k. length (co_returned s) \<le> k \<and> k < length (co_returned (co_step ?t ev)) \<longrightarrow>
        result_of (co_step ?t ev) k = Fulfilled v"
  proof (intro allI impI)
    fix k
    assume k: "length (co_returned s) \<le> k \<and> k < length (co_returned (co_step ?t ev))"
    from st consider (same) "co_returned (co_step ?t ev) = co_returned ?t"
      | (direct) "co_returned (co_step ?t ev) = co_returned ?t @ [Direct v]"
      | (follows) "co_returned (co_step ?t ev) = co_returned ?t @ [Follows n]"
      by blast
    then show "result_of (co_step ?t ev) k = Fulfilled v"
    proof cases
      case same
      with k res have "result_of ?t k = Fulfilled v" by simp
      with same j' result_of_same [of "co_step ?t ev" k ?t] show ?thesis by simp
    next
      case direct
      show ?thesis
      proof (cases "k < length (co_returned ?t)")
        case True
        with k res have "result_of ?t k = Fulfilled v" by simp
        with True direct j' result_of_same [of "co_step ?t ev" k ?t] show ?thesis
          by (simp add: nth_append)
      next
        case False
        with k direct show ?thesis by (simp add: result_of_def nth_append)
      qed
    next
      case follows
      show ?thesis
      proof (cases "k < length (co_returned ?t)")
        case True
        with k res have "result_of ?t k = Fulfilled v" by simp
        with True follows j' result_of_same [of "co_step ?t ev" k ?t] show ?thesis
          by (simp add: nth_append)
      next
        case False
        with k follows j' nv show ?thesis by (simp add: result_of_def nth_append)
      qed
    qed
  qed
  with st jobs show ?case by simp
qed

lemma co_failure:
  assumes "co_inv s" and "co_promise s = Some n" and "co_jobs s ! n = Pending"
  shows "co_value (job_settles n (Threw e) s) = Undefined \<and>
     co_promise (job_settles n (Threw e) s) = None \<and>
     (\<forall>k < length (co_returned (job_settles n (Threw e) s)).
        co_returned (job_settles n (Threw e) s) ! k = Follows n \<longrightarrow>
        result_of (job_settles n (Threw e) s) k = Rejected e) \<and>
     invocations (getOrThrow (job_settles n (Threw e) s)) =
       invocations (job_settles n (Threw e) s) + 1"
proof -
  from assms have n: "n < length (co_jobs s)" unfolding co_inv_def by auto
  with assms(3) show ?thesis
    by (simp add: job_settles_def result_of_def invocations_def getOrThrow_def)
qed

lemma co_run_retry:
  "co_run [GetOrThrow, JobSettles 0 (Threw e), GetOrThrow, JobSettles 1 (Returned v), GetOrThrow] =
     \<lparr>co_value = v, co_promise = Some 1, co_jobs = [Rejected e, Fulfilled v],
      co_returned = [Follows 0, Follows 1, if truthy v then Direct v else Follows 1]\<rparr>"
  by (simp add: co_run_def co_init_def getOrThrow_def job_settles_def)

section \<open>Properties of CacheOnSuccess\<close>

text \<open>
  C6.  In every reachable state: once a job promise is fulfilled with \<open>v\<close>, no later event
  invokes the job again and every later call of \<open>getOrThrow\<close> resolves to \<open>v\<close>; when the
  job in flight fails with \<open>e\<close>, the value and the promise are cleared, every call that
  was given that attempt's promise is rejected with \<open>e\<close>, and the next call invokes the job
  again; and three calls in sequence, the job throwing once and then succeeding, invoke
  the job exactly twice and end rejected, fulfilled, fulfilled.
\<close>

theorem cache_on_success:
  "(\<forall>n v evs'. n < length (co_jobs (co_run evs)) \<and> co_jobs (co_run evs) ! n = Fulfilled v \<longrightarrow>
      invocations (co_run (evs @ evs')) = invocations (co_run evs) \<and>
      (\<forall>k. length (co_returned (co_run evs)) \<le> k \<and>
           k < length (co_returned (co_run (evs @ evs'))) \<longrightarrow>
           result_of (co_run (evs @ evs')) k = Fulfilled v)) \<and>
   (\<forall>n e. co_promise (co_run evs) = Some n \<and> co_jobs (co_run evs) ! n = Pending \<longrightarrow>
      co_value (job_settles n (Threw e) (co_run evs)) = Undefined \<and>
      co_promise (job_settles n (Threw e) (co_run evs)) = None \<and>
      (\<forall>k < length (co_returned (job_settles n (Threw e) (co_run evs))).
         co_returned (job_settles n (Threw e) (co_run evs)) ! k = Follows n \<longrightarrow>
         result_of (job_settles n (Threw e) (co_run evs)) k = Rejected e) \<and>
      invocations (getOrThrow (job_settles n (Threw e) (co_run evs))) =
        invocations (job_settles n (Threw e) (co_run evs)) + 1) \<and>
   invocations (co_run
     [GetOrThrow, JobSettles 0 (Threw e0), GetOrThrow, JobSettles 1 (Returned v0), GetOrThrow]) = 2 \<and>
   map (result_of (co_run
     [GetOrThrow, JobSettles 0 (Threw e0), GetOrThrow, JobSettles 1 (Returned v0), GetOrThrow]))
     [0, 1, 2] = [Rejected e0, Fulfilled v0, Fulfilled v0]"
proof -
  let ?s = "co_run evs"
  have a: "\<forall>n v evs'. n < length (co_jobs ?s) \<and> co_jobs ?s ! n = Fulfilled v \<longrightarrow>
      invocations (co_run (evs @ evs')) = invocations ?s \<and>
      (\<forall>k. length (co_returned ?s) \<le> k \<and> k < length (co_returned (co_run (evs @ evs'))) \<longrightarrow>
           result_of (co_run (evs @ evs')) k = Fulfilled v)"
  proof (intro allI impI)
    fix n v evs'
    assume h: "n < length (co_jobs ?s) \<and> co_jobs ?s ! n = Fulfilled v"
    then have "done_state n v ?s" using co_inv_done [OF co_inv_run, of n evs v] by simp
    from done_foldl [OF this, of evs'] show
      "invocations (co_run (evs @ evs')) = invocations ?s \<and>
      (\<forall>k. length (co_returned ?s) \<le> k \<and> k < length (co_returned (co_run (evs @ evs'))) \<longrightarrow>
           result_of (co_run (evs @ evs')) k = Fulfilled v)"
      by (simp add: co_run_def invocations_def)
  qed
  have b: "\<forall>n e. co_promise ?s = Some n \<and> co_jobs ?s ! n = Pending \<longrightarrow>
      co_value (job_settles n (Threw e) ?s) = Undefined \<and>
      co_promise (job_settles n (Threw e) ?s) = None \<and>
      (\<forall>k < length (co_returned (job_settles n (Threw e) ?s)).
         co_returned (job_settles n (Threw e) ?s) ! k = Follows n \<longrightarrow>
         result_of (job_settles n (Threw e) ?s) k = Rejected e) \<and>
      invocations (getOrThrow (job_settles n (Threw e) ?s)) =
        invocations (job_settles n (Threw e) ?s) + 1"
    using co_failure [OF co_inv_run, of evs] by blast
  have c: "invocations (co_run
     [GetOrThrow, JobSettles 0 (Threw e0), GetOrThrow, JobSettles 1 (Returned v0), GetOrThrow]) = 2"
    by (simp only: co_run_retry invocations_def) simp
  have d: "map (result_of (co_run
     [GetOrThrow, JobSettles 0 (Threw e0), GetOrThrow, JobSettles 1 (Returned v0), GetOrThrow]))
     [0, 1, 2] = [Rejected e0, Fulfilled v0, Fulfilled v0]"
    by (simp only: co_run_retry) (simp add: result_of_def)
  from a b c d show ?thesis by blast
qed

text \<open>After a success with a falsy value every call returns the retained promise.\<close>

definition only_follows :: "nat \<Rightarrow> returned list \<Rightarrow> bool" where
  "only_follows n rs = list_all (\<lambda>r. r = Follows n) rs"

lemma falsy_foldl:
  assumes "\<not> truthy v" and "co_value s = v" and "co_promise s = Some 0"
    and "co_jobs s = [Fulfilled v]" and "only_follows 0 (co_returned s)"
  shows "co_value (foldl co_step s evs) = v \<and> co_promise (foldl co_step s evs) = Some 0 \<and>
     co_jobs (foldl co_step s evs) = [Fulfilled v] \<and>
     only_follows 0 (co_returned (foldl co_step s evs))"
proof (induction evs rule: rev_induct)
  case Nil
  with assms show ?case by simp
next
  case (snoc ev evs)
  then show ?case
  proof (cases ev)
    case GetOrThrow
    with snoc assms(1) show ?thesis
      by (simp add: getOrThrow_def only_follows_def)
  next
    case (JobSettles m out)
    with snoc show ?thesis
      by (auto simp: job_settles_def)
  qed
qed

text \<open>
  C10.  When the first job resolves to a falsy value \<open>v\<close>, then whatever follows the job
  has been invoked exactly once, the stored value is \<open>v\<close> (so the truthiness test
  misses), the fulfilled promise is retained, and every call of \<open>getOrThrow\<close> was given
  that promise and resolves to \<open>v\<close>.
\<close>

theorem cache_falsy_value:
  assumes "\<not> truthy v"
  shows "invocations (co_run (GetOrThrow # JobSettles 0 (Returned v) # evs)) = 1 \<and>
     co_value (co_run (GetOrThrow # JobSettles 0 (Returned v) # evs)) = v \<and>
     co_promise (co_run (GetOrThrow # JobSettles 0 (Returned v) # evs)) = Some 0 \<and>
     (\<forall>k < length (co_returned (co_run (GetOrThrow # JobSettles 0 (Returned v) # evs))).
        co_returned (co_run (GetOrThrow # JobSettles 0 (Returned v) # evs)) ! k = Follows 0 \<and>
        result_of (co_run (GetOrThrow # JobSettles 0 (Returned v) # evs)) k = Fulfilled v)"
proof -
  let ?s = "\<lparr>co_value = v, co_promise = Some 0, co_jobs = [Fulfilled v],
     co_returned = [Follows 0]\<rparr> :: 'a cache"
  let ?t = "co_run (GetOrThrow # JobSettles 0 (Returned v) # evs) :: 'a cache"
  have t: "?t = foldl co_step ?s evs"
    by (simp add: co_run_def co_init_def getOrThrow_def job_settles_def)
  from falsy_foldl [OF assms, of ?s evs]
  have f: "co_value ?t = v" "co_promise ?t = Some 0" "co_jobs ?t = [Fulfilled v]"
    "only_follows 0 (co_returned ?t)"
    unfolding t by (simp_all add: only_follows_def)
  from f(4) have "\<forall>k < length (co_returned ?t). co_returned ?t ! k = Follows 0"
    by (simp add: only_follows_def list_all_length)
  with f(1,2,3) show ?thesis
    by (simp add: invocations_def result_of_def)
qed

subsection \<open>Concrete runs of the cache\<close>

lemma co_run_ok:
  "(co_run [GetOrThrow, JobSettles 0 (Returned (Str ''ok''))] :: string cache) =
     \<lparr>co_value = Str ''ok'', co_promise = Some 0, co_jobs = [Fulfilled (Str ''ok'')],
      co_returned = [Follows 0]\<rparr>"
  by (simp add: co_run_def co_init_def getOrThrow_def job_settles_def)

lemma co_run_first:
  "(co_run [GetOrThrow] :: string cache) =
     \<lparr>co_value = Undefined, co_promise = Some 0, co_jobs = [Pending], co_returned = [Follows 0]\<rparr>"
  by (simp add: co_run_def co_init_def getOrThrow_def)

lemma co_run_ok_twice:
  "length (co_returned (co_run ([GetOrThrow, JobSettles 0 (Returned (Str ''ok''))] @
     [GetOrThrow, GetOrThrow]) :: string cache)) = 3"
  by (simp add: co_run_def co_init_def getOrThrow_def job_settles_def)

text \<open>C6 at a job that resolves to the string \<open>ok\<close>, and at a job that fails while the first
  call awaits it.\<close>

theorem cache_on_success_witness:
  "co_jobs (co_run [GetOrThrow, JobSettles 0 (Returned (Str ''ok''))] :: string cache) ! 0 =
     Fulfilled (Str ''ok'') \<and>
   invocations (co_run ([GetOrThrow, JobSettles 0 (Returned (Str ''ok''))] @
     [GetOrThrow, GetOrThrow]) :: string cache) = 1 \<and>
   result_of (co_run ([GetOrThrow, JobSettles 0 (Returned (Str ''ok''))] @
     [GetOrThrow, GetOrThrow]) :: string cache) 2 = Fulfilled (Str ''ok'') \<and>
   co_promise (co_run [GetOrThrow] :: string cache) = Some 0 \<and>
   co_jobs (co_run [GetOrThrow] :: string cache) ! 0 = Pending \<and>
   co_promise (job_settles 0 (Threw ''down'') (co_run [GetOrThrow] :: string cache)) = None \<and>
   result_of (job_settles 0 (Threw ''down'') (co_run [GetOrThrow] :: string cache)) 0 =
     Rejected ''down'' \<and>
   invocations (getOrThrow (job_settles 0 (Threw ''down'') (co_run [GetOrThrow] :: string cache))) = 2"
proof -
  let ?ok = "[GetOrThrow, JobSettles 0 (Returned (Str ''ok''))] :: string co_event list"
  let ?one = "[GetOrThrow] :: string co_event list"
  have h1: "0 < length (co_jobs (co_run ?ok)) \<and> co_jobs (co_run ?ok) ! 0 = Fulfilled (Str ''ok'')"
    by (simp add: co_run_ok)
  have inv1: "invocations (co_run ?ok) = 1" by (simp add: co_run_ok invocations_def)
  have len1: "length (co_returned (co_run ?ok)) = 1" by (simp add: co_run_ok)
  have h2: "co_promise (co_run ?one) = Some 0 \<and> co_jobs (co_run ?one) ! 0 = Pending"
    by (simp add: co_run_first)
  note A = cache_on_success [of ?ok, THEN conjunct1, rule_format, OF h1, of "[GetOrThrow, GetOrThrow]"]
  note B = cache_on_success [of ?one, THEN conjunct2, THEN conjunct1, rule_format, OF h2, of "''down''"]
  from A inv1 have a: "invocations (co_run (?ok @ [GetOrThrow, GetOrThrow])) = 1" by simp
  from A len1 co_run_ok_twice
  have b: "result_of (co_run (?ok @ [GetOrThrow, GetOrThrow])) 2 = Fulfilled (Str ''ok'')"
    by simp
  from B have c: "co_promise (job_settles 0 (Threw ''down'') (co_run ?one)) = None" by blast
  have ret: "0 < length (co_returned (job_settles 0 (Threw ''down'') (co_run ?one))) \<and>
      co_returned (job_settles 0 (Threw ''down'') (co_run ?one)) ! 0 = Follows 0"
    by (simp add: co_run_first job_settles_def)
  with B have d: "result_of (job_settles 0 (Threw ''down'') (co_run ?one)) 0 = Rejected ''down''"
    by blast
  have "invocations (job_settles 0 (Threw ''down'') (co_run ?one)) = 1"
    by (simp add: co_run_first job_settles_def invocations_def)
  with B have e: "invocations (getOrThrow (job_settles 0 (Threw ''down'') (co_run ?one))) = 2"
    by simp
  from h1 h2 a b c d e show ?thesis by blast
qed

text \<open>C10 at a job that resolves to the number 0, followed by two more calls.\<close>

theorem cache_falsy_value_witness:
  "\<not> truthy (Num 0) \<and>
   invocations (co_run (GetOrThrow # JobSettles 0 (Returned (Num 0)) #
     [GetOrThrow, GetOrThrow]) :: string cache) = 1 \<and>
   length (co_returned (co_run (GetOrThrow # JobSettles 0 (Returned (Num 0)) #
     [GetOrThrow, GetOrThrow]) :: string cache)) = 3 \<and>
   co_returned (co_run (GetOrThrow # JobSettles 0 (Returned (Num 0)) #
     [GetOrThrow, GetOrThrow]) :: string cache) ! 2 = Follows 0 \<and>
   result_of (co_run (GetOrThrow # JobSettles 0 (Returned (Num 0)) #
     [GetOrThrow, GetOrThrow]) :: string cache) 2 = Fulfilled (Num 0)"
proof -
  let ?t = "co_run (GetOrThrow # JobSettles 0 (Returned (Num 0)) #
     [GetOrThrow, GetOrThrow]) :: string cache"
  have h: "\<not> truthy (Num 0)" by simp
  have len: "length (co_returned ?t) = 3"
    by (simp add: co_run_def co_init_def getOrThrow_def job_settles_def)
  note T = cache_falsy_value [OF h, of "[GetOrThrow, GetOrThrow] :: string co_event list"]
  from T have a: "invocations ?t = 1" by blast
  from T len have b: "co_returned ?t ! 2 = Follows 0 \<and> result_of ?t 2 = Fulfilled (Num 0)"
    by simp
  from h a len b show ?thesis by blast
qed

section \<open>Compilation database generation\<close>

text \<open>
  \<^verbatim>\<open>class Ebuild\<close> of the compilation database service.  The class \<^verbatim>\<open>BoardOrHost\<close> is
  not among the sources: an ebuild carries the two strings the code asks of it,
  \<^verbatim>\<open>board.toString()\<close> (field \<open>board\<close>) and \<^verbatim>\<open>board.sysroot()\<close>.  Of \<^verbatim>\<open>crosFs\<close> it
  carries the three roots.
\<close>

record ebuild =
  board :: string
  sysroot :: string
  qualifiedPackageName :: string
  sourceRoot :: string
  chrootRoot :: string
  outRoot :: string

text \<open>
  The static \<^verbatim>\<open>globalMutexMap\<close> and the \<^verbatim>\<open>Mutex\<close> objects allocated so far; the map
  holds references (indices) to them.
\<close>

record ('v, 'e) process =
  globalMutexMap :: "string \<rightharpoonup> nat"
  mutexes :: "('v, 'e) mutex list"

definition pr_init :: "('v, 'e) process" where
  "pr_init = \<lparr>globalMutexMap = Map.empty, mutexes = []\<rparr>"

text \<open>\<^verbatim>\<open>mutex()\<close>: the key is the template string \<^verbatim>\<open>board:package:root\<close>; the existing
  mutex is returned, or a new one is made and stored.\<close>

definition mutex_key :: "ebuild \<Rightarrow> string" where
  "mutex_key e = board e @ '':'' @ qualifiedPackageName e @ '':'' @ sourceRoot e"

definition mutex_of :: "ebuild \<Rightarrow> ('v, 'e) process \<Rightarrow> nat \<times> ('v, 'e) process" where
  "mutex_of e s =
     (case globalMutexMap s (mutex_key e) of
        Some existing \<Rightarrow> (existing, s)
      | None \<Rightarrow>
          (length (mutexes s),
           s\<lparr>mutexes := mutexes s @ [mx_init],
             globalMutexMap := (globalMutexMap s)(mutex_key e \<mapsto> length (mutexes s))\<rparr>))"

text \<open>\<^verbatim>\<open>generate()\<close> hands its body (a job, named by \<open>j\<close>) to \<^verbatim>\<open>runExclusive\<close> of that
  mutex.\<close>

definition generate :: "ebuild \<Rightarrow> nat \<Rightarrow> ('v, 'e) process \<Rightarrow> ('v, 'e) process" where
  "generate e j s =
     (let (m, s1) = mutex_of e s
      in s1\<lparr>mutexes := (mutexes s1)[m := runExclusive j (mutexes s1 ! m)]\<rparr>)"

text \<open>The events of the process: a call of \<^verbatim>\<open>generate\<close>, or an event of one of the
  mutexes.\<close>

datatype ('v, 'e) pr_event = Generate ebuild nat | InMutex nat "('v, 'e) mx_event"

fun pr_step :: "('v, 'e) process \<Rightarrow> ('v, 'e) pr_event \<Rightarrow> ('v, 'e) process" where
  "pr_step s (Generate e j) = generate e j s"
| "pr_step s (InMutex m ev) =
     (if m < length (mutexes s)
      then s\<lparr>mutexes := (mutexes s)[m := mx_step (mutexes s ! m) ev]\<rparr> else s)"

definition pr_run :: "('v, 'e) pr_event list \<Rightarrow> ('v, 'e) process" where
  "pr_run evs = foldl pr_step pr_init evs"

subsection \<open>The invariant of the registry\<close>

text \<open>The map refers to allocated mutexes only, no two keys share a mutex, and every mutex
  satisfies the invariant of the mutex.\<close>

definition pr_inv :: "('v, 'e) process \<Rightarrow> bool" where
  "pr_inv s =
     ((\<forall>k m. globalMutexMap s k = Some m \<longrightarrow> m < length (mutexes s)) \<and>
      (\<forall>k k' m. globalMutexMap s k = Some m \<and> globalMutexMap s k' = Some m \<longrightarrow> k = k') \<and>
      list_all mx_inv (mutexes s))"

lemma pr_inv_init: "pr_inv pr_init"
  by (simp add: pr_inv_def pr_init_def)

lemma pr_inv_mutex_of:
  assumes "pr_inv s"
  shows "pr_inv (snd (mutex_of e s)) \<and> fst (mutex_of e s) < length (mutexes (snd (mutex_of e s))) \<and>
     globalMutexMap (snd (mutex_of e s)) (mutex_key e) = Some (fst (mutex_of e s))"
proof (cases "globalMutexMap s (mutex_key e)")
  case None
  let ?n = "length (mutexes s)"
  let ?s' = "s\<lparr>mutexes := mutexes s @ [mx_init],
               globalMutexMap := (globalMutexMap s)(mutex_key e \<mapsto> ?n)\<rparr>"
  from None have eq: "mutex_of e s = (?n, ?s')" by (simp add: mutex_of_def)
  from assms have bound: "\<And>k m. globalMutexMap s k = Some m \<Longrightarrow> m < ?n"
    and inj: "\<And>k k' m. globalMutexMap s k = Some m \<Longrightarrow> globalMutexMap s k' = Some m \<Longrightarrow> k = k'"
    and all: "list_all mx_inv (mutexes s)"
    unfolding pr_inv_def by blast+
  have b': "\<forall>k m. globalMutexMap ?s' k = Some m \<longrightarrow> m < length (mutexes ?s')"
    using bound by (auto simp: less_Suc_eq)
  have i': "\<forall>k k' m. globalMutexMap ?s' k = Some m \<and> globalMutexMap ?s' k' = Some m \<longrightarrow> k = k'"
  proof (intro allI impI)
    fix k k' m
    assume h: "globalMutexMap ?s' k = Some m \<and> globalMutexMap ?s' k' = Some m"
    show "k = k'"
    proof (cases "k = mutex_key e")
      case True
      with h have m: "m = ?n" by simp
      show ?thesis
      proof (cases "k' = mutex_key e")
        case True
        with \<open>k = mutex_key e\<close> show ?thesis by simp
      next
        case False
        with h m have "globalMutexMap s k' = Some ?n" by simp
        from bound [OF this] show ?thesis by simp
      qed
    next
      case False
      with h have km: "globalMutexMap s k = Some m" by simp
      show ?thesis
      proof (cases "k' = mutex_key e")
        case True
        with h have "m = ?n" by simp
        with bound [OF km] show ?thesis by simp
      next
        case False
        with h have "globalMutexMap s k' = Some m" by simp
        with km inj show ?thesis by blast
      qed
    qed
  qed
  have a': "list_all mx_inv (mutexes ?s')" using all by (simp add: mx_inv_init)
  from b' i' a' have "pr_inv ?s'" unfolding pr_inv_def by blast
  with eq show ?thesis by simp
next
  case (Some m)
  with assms show ?thesis
    unfolding pr_inv_def mutex_of_def by auto
qed

lemma list_all_update: "list_all P xs \<Longrightarrow> P x \<Longrightarrow> list_all P (xs[i := x])"
  by (auto simp: list_all_iff dest: set_update_subset_insert [THEN subsetD])

lemma pr_inv_generate:
  assumes "pr_inv s"
  shows "pr_inv (generate e j s)"
proof -
  obtain m s1 where ms: "mutex_of e s = (m, s1)" by (cases "mutex_of e s")
  with pr_inv_mutex_of [OF assms, of e] have s1: "pr_inv s1" and m: "m < length (mutexes s1)"
    by simp_all
  from s1 m have "mx_inv (mutexes s1 ! m)"
    unfolding pr_inv_def by (simp add: list_all_length)
  then have "mx_inv (runExclusive j (mutexes s1 ! m))" by (rule mx_inv_runExclusive)
  with s1 have "pr_inv (s1\<lparr>mutexes := (mutexes s1)[m := runExclusive j (mutexes s1 ! m)]\<rparr>)"
    unfolding pr_inv_def by (simp add: list_all_update)
  with ms show ?thesis by (simp add: generate_def)
qed

lemma pr_inv_step: "pr_inv s \<Longrightarrow> pr_inv (pr_step s ev)"
proof (cases ev)
  case (Generate e j)
  assume "pr_inv s"
  with Generate show ?thesis by (simp add: pr_inv_generate)
next
  case (InMutex m mev)
  assume inv: "pr_inv s"
  show ?thesis
  proof (cases "m < length (mutexes s)")
    case True
    with inv have "mx_inv (mutexes s ! m)"
      unfolding pr_inv_def by (simp add: list_all_length)
    then have "mx_inv (mx_step (mutexes s ! m) mev)" by (rule mx_inv_step)
    with inv True InMutex show ?thesis
      unfolding pr_inv_def by (simp add: list_all_update)
  next
    case False
    with inv InMutex show ?thesis by simp
  qed
qed

lemma pr_inv_foldl: "pr_inv s \<Longrightarrow> pr_inv (foldl pr_step s evs)"
  by (induction evs arbitrary: s) (auto simp: pr_inv_step)

lemma pr_inv_run: "pr_inv (pr_run evs)"
  by (simp add: pr_run_def pr_inv_foldl pr_inv_init)

lemma registry_step:
  "globalMutexMap s k = Some m \<Longrightarrow> globalMutexMap (pr_step s ev) k = Some m"
  by (cases ev) (auto simp: generate_def mutex_of_def Let_def split: option.splits)

lemma registry_foldl:
  "globalMutexMap s k = Some m \<Longrightarrow> globalMutexMap (foldl pr_step s evs) k = Some m"
  by (induction evs arbitrary: s) (auto simp: registry_step)

subsection \<open>Keys\<close>

lemma split_at_colon:
  "CHR '':'' \<notin> set a \<Longrightarrow> CHR '':'' \<notin> set b \<Longrightarrow> a @ CHR '':'' # x = b @ CHR '':'' # y \<Longrightarrow>
   a = b \<and> x = y"
proof (induction a arbitrary: b)
  case Nil
  then show ?case by (cases b) auto
next
  case (Cons c a)
  then show ?case by (cases b) auto
qed

lemma mutex_key_inj:
  assumes "CHR '':'' \<notin> set (board e1)" "CHR '':'' \<notin> set (board e2)"
    "CHR '':'' \<notin> set (qualifiedPackageName e1)" "CHR '':'' \<notin> set (qualifiedPackageName e2)"
    "mutex_key e1 = mutex_key e2"
  shows "board e1 = board e2 \<and> qualifiedPackageName e1 = qualifiedPackageName e2 \<and>
     sourceRoot e1 = sourceRoot e2"
proof -
  from assms(5) have eq: "board e1 @ CHR '':'' # (qualifiedPackageName e1 @ CHR '':'' # sourceRoot e1) =
     board e2 @ CHR '':'' # (qualifiedPackageName e2 @ CHR '':'' # sourceRoot e2)"
    by (simp add: mutex_key_def)
  from split_at_colon [OF assms(1,2) eq]
  have b: "board e1 = board e2"
    and rest: "qualifiedPackageName e1 @ CHR '':'' # sourceRoot e1 =
      qualifiedPackageName e2 @ CHR '':'' # sourceRoot e2" by simp_all
  from split_at_colon [OF assms(3,4) rest] b show ?thesis by simp
qed

lemma runExclusive_submits:
  "j \<in> set (begun (mx_trace (runExclusive j t)) @ map job (mx_queue (runExclusive j t)))"
proof -
  have "begun (mx_trace (runExclusive j t)) @ map job (mx_queue (runExclusive j t)) =
      begun (mx_trace t) @ map job (mx_queue t) @ [j]"
    using mx_fifo_step [of t "RunExclusive j"] by simp
  then show ?thesis by simp
qed

lemma same_key_same_mutex:
  assumes "pr_inv s" and "mutex_key e1 = mutex_key e2"
  shows "fst (mutex_of e2 (foldl pr_step (snd (mutex_of e1 s)) evs)) = fst (mutex_of e1 s)"
proof -
  from pr_inv_mutex_of [OF assms(1), of e1]
  have "globalMutexMap (snd (mutex_of e1 s)) (mutex_key e1) = Some (fst (mutex_of e1 s))"
    by simp
  from registry_foldl [OF this, of evs] assms(2) show ?thesis
    by (simp add: mutex_of_def)
qed

lemma other_key_other_mutex:
  assumes "pr_inv s" and "mutex_key e1 \<noteq> mutex_key e2"
  shows "fst (mutex_of e2 (foldl pr_step (snd (mutex_of e1 s)) evs)) \<noteq> fst (mutex_of e1 s)"
proof -
  let ?m = "fst (mutex_of e1 s)"
  let ?t = "foldl pr_step (snd (mutex_of e1 s)) evs"
  from pr_inv_mutex_of [OF assms(1), of e1]
  have inv1: "pr_inv (snd (mutex_of e1 s))"
    and reg: "globalMutexMap (snd (mutex_of e1 s)) (mutex_key e1) = Some ?m"
    by simp_all
  from registry_foldl [OF reg, of evs] have regt: "globalMutexMap ?t (mutex_key e1) = Some ?m" .
  from pr_inv_foldl [OF inv1, of evs] have invt: "pr_inv ?t" .
  from invt regt have bound: "?m < length (mutexes ?t)" unfolding pr_inv_def by blast
  show ?thesis
  proof (cases "globalMutexMap ?t (mutex_key e2)")
    case None
    with bound show ?thesis by (simp add: mutex_of_def)
  next
    case (Some m2)
    have "m2 \<noteq> ?m"
    proof
      assume "m2 = ?m"
      with Some regt invt have "mutex_key e1 = mutex_key e2" unfolding pr_inv_def by blast
      with assms(2) show False by simp
    qed
    with Some show ?thesis by (simp add: mutex_of_def)
  qed
qed

lemma generate_submits:
  assumes "pr_inv s"
  shows "j \<in> set (begun (mx_trace (mutexes (generate e j s) ! fst (mutex_of e s))) @
     map job (mx_queue (mutexes (generate e j s) ! fst (mutex_of e s))))"
proof -
  obtain m s1 where ms: "mutex_of e s = (m, s1)" by (cases "mutex_of e s")
  with pr_inv_mutex_of [OF assms, of e] have m: "m < length (mutexes s1)" by simp
  with ms have "mutexes (generate e j s) ! fst (mutex_of e s) = runExclusive j (mutexes s1 ! m)"
    by (simp add: generate_def)
  with runExclusive_submits [of j "mutexes s1 ! m"] show ?thesis by simp
qed

section \<open>Properties of the compilation database service\<close>

text \<open>
  C7, as the code has it.  In every reachable state of the process: two ebuilds with the
  same board, package name and source root are given the same mutex, also after any
  further events (the registry never drops or changes an entry); \<open>generate\<close> submits its
  body to that mutex; every mutex of the registry runs its bodies one at a time, each
  ended before the next begins; and two ebuilds that differ in board, package name or
  source root are given different mutexes provided the board and package names have no
  colon in them.
\<close>

theorem compdb_mutex_keying:
  "(board e1 = board e2 \<and> qualifiedPackageName e1 = qualifiedPackageName e2 \<and>
      sourceRoot e1 = sourceRoot e2 \<longrightarrow>
      fst (mutex_of e2 (foldl pr_step (snd (mutex_of e1 (pr_run evs))) evs')) =
        fst (mutex_of e1 (pr_run evs))) \<and>
   j \<in> set (begun (mx_trace (mutexes (generate e1 j (pr_run evs)) ! fst (mutex_of e1 (pr_run evs)))) @
     map job (mx_queue (mutexes (generate e1 j (pr_run evs)) ! fst (mutex_of e1 (pr_run evs))))) \<and>
   (\<forall>m < length (mutexes (pr_run evs)).
      length (mx_awaiting (mutexes (pr_run evs) ! m)) \<le> 1 \<and>
      serial (mx_trace (mutexes (pr_run evs) ! m))) \<and>
   (CHR '':'' \<notin> set (board e1) \<and> CHR '':'' \<notin> set (board e2) \<and>
    CHR '':'' \<notin> set (qualifiedPackageName e1) \<and> CHR '':'' \<notin> set (qualifiedPackageName e2) \<and>
    (board e1 \<noteq> board e2 \<or> qualifiedPackageName e1 \<noteq> qualifiedPackageName e2 \<or>
     sourceRoot e1 \<noteq> sourceRoot e2) \<longrightarrow>
      fst (mutex_of e2 (foldl pr_step (snd (mutex_of e1 (pr_run evs))) evs')) \<noteq>
        fst (mutex_of e1 (pr_run evs)))"
proof -
  let ?s = "pr_run evs"
  have inv: "pr_inv ?s" by (rule pr_inv_run)
  have a: "board e1 = board e2 \<and> qualifiedPackageName e1 = qualifiedPackageName e2 \<and>
      sourceRoot e1 = sourceRoot e2 \<longrightarrow>
      fst (mutex_of e2 (foldl pr_step (snd (mutex_of e1 ?s)) evs')) = fst (mutex_of e1 ?s)"
  proof
    assume "board e1 = board e2 \<and> qualifiedPackageName e1 = qualifiedPackageName e2 \<and>
      sourceRoot e1 = sourceRoot e2"
    then have "mutex_key e1 = mutex_key e2" by (simp add: mutex_key_def)
    from same_key_same_mutex [OF inv this] show
      "fst (mutex_of e2 (foldl pr_step (snd (mutex_of e1 ?s)) evs')) = fst (mutex_of e1 ?s)" .
  qed
  have b: "\<forall>m < length (mutexes ?s).
      length (mx_awaiting (mutexes ?s ! m)) \<le> 1 \<and> serial (mx_trace (mutexes ?s ! m))"
  proof (intro allI impI)
    fix m assume "m < length (mutexes ?s)"
    with inv have "mx_inv (mutexes ?s ! m)" unfolding pr_inv_def by (simp add: list_all_length)
    then show "length (mx_awaiting (mutexes ?s ! m)) \<le> 1 \<and> serial (mx_trace (mutexes ?s ! m))"
      by (rule mx_inv_serial)
  qed
  have c: "CHR '':'' \<notin> set (board e1) \<and> CHR '':'' \<notin> set (board e2) \<and>
    CHR '':'' \<notin> set (qualifiedPackageName e1) \<and> CHR '':'' \<notin> set (qualifiedPackageName e2) \<and>
    (board e1 \<noteq> board e2 \<or> qualifiedPackageName e1 \<noteq> qualifiedPackageName e2 \<or>
     sourceRoot e1 \<noteq> sourceRoot e2) \<longrightarrow>
      fst (mutex_of e2 (foldl pr_step (snd (mutex_of e1 ?s)) evs')) \<noteq> fst (mutex_of e1 ?s)"
  proof
    assume h: "CHR '':'' \<notin> set (board e1) \<and> CHR '':'' \<notin> set (board e2) \<and>
      CHR '':'' \<notin> set (qualifiedPackageName e1) \<and> CHR '':'' \<notin> set (qualifiedPackageName e2) \<and>
      (board e1 \<noteq> board e2 \<or> qualifiedPackageName e1 \<noteq> qualifiedPackageName e2 \<or>
       sourceRoot e1 \<noteq> sourceRoot e2)"
    have "mutex_key e1 \<noteq> mutex_key e2"
    proof
      assume "mutex_key e1 = mutex_key e2"
      with h mutex_key_inj [of e1 e2] show False by blast
    qed
    from other_key_other_mutex [OF inv this] show
      "fst (mutex_of e2 (foldl pr_step (snd (mutex_of e1 ?s)) evs')) \<noteq> fst (mutex_of e1 ?s)" .
  qed
  from a b c generate_submits [OF inv, of j e1] show ?thesis by blast
qed

subsection \<open>Concrete ebuilds\<close>

definition ebuild_colon_board :: ebuild where
  "ebuild_colon_board = \<lparr>board = ''a:b'', sysroot = ''/build/a:b'', qualifiedPackageName = ''c'',
     sourceRoot = ''/cros'', chrootRoot = ''/cros/chroot'', outRoot = ''/cros/out''\<rparr>"

definition ebuild_colon_package :: ebuild where
  "ebuild_colon_package = \<lparr>board = ''a'', sysroot = ''/build/a'', qualifiedPackageName = ''b:c'',
     sourceRoot = ''/cros'', chrootRoot = ''/cros/chroot'', outRoot = ''/cros/out''\<rparr>"

definition ebuild_betty :: ebuild where
  "ebuild_betty = \<lparr>board = ''betty'', sysroot = ''/build/betty'',
     qualifiedPackageName = ''chromeos-base/codelab'',
     sourceRoot = ''/cros'', chrootRoot = ''/cros/chroot'', outRoot = ''/cros/out''\<rparr>"

definition ebuild_eve :: ebuild where
  "ebuild_eve = \<lparr>board = ''eve'', sysroot = ''/build/eve'',
     qualifiedPackageName = ''chromeos-base/codelab'',
     sourceRoot = ''/cros'', chrootRoot = ''/cros/chroot'', outRoot = ''/cros/out''\<rparr>"

text \<open>C7 as stated fails: board \<open>a:b\<close> with package \<open>c\<close> and board \<open>a\<close> with package \<open>b:c\<close>
  differ in two components of the key and are given the same mutex, since both keys are
  the string \<open>a:b:c:/cros\<close>.\<close>

theorem compdb_mutex_keying_counterexample:
  "board ebuild_colon_board \<noteq> board ebuild_colon_package \<and>
   qualifiedPackageName ebuild_colon_board \<noteq> qualifiedPackageName ebuild_colon_package \<and>
   fst (mutex_of ebuild_colon_package
     (snd (mutex_of ebuild_colon_board (pr_init :: (nat, string) process)))) =
   fst (mutex_of ebuild_colon_board (pr_init :: (nat, string) process))"
  by (simp add: ebuild_colon_board_def ebuild_colon_package_def mutex_of_def mutex_key_def
      pr_init_def)

text \<open>C7 at the boards \<open>betty\<close> and \<open>eve\<close> with the same package and source root.\<close>

theorem compdb_mutex_keying_witness:
  "fst (mutex_of ebuild_betty
     (foldl pr_step (snd (mutex_of ebuild_betty (pr_run [] :: (nat, string) process)))
        [Generate ebuild_eve 7])) =
     fst (mutex_of ebuild_betty (pr_run [] :: (nat, string) process)) \<and>
   CHR '':'' \<notin> set (board ebuild_betty) \<and> CHR '':'' \<notin> set (board ebuild_eve) \<and>
   CHR '':'' \<notin> set (qualifiedPackageName ebuild_betty) \<and>
   CHR '':'' \<notin> set (qualifiedPackageName ebuild_eve) \<and>
   board ebuild_betty \<noteq> board ebuild_eve \<and>
   fst (mutex_of ebuild_eve
     (foldl pr_step (snd (mutex_of ebuild_betty (pr_run [] :: (nat, string) process)))
        [Generate ebuild_eve 7])) \<noteq>
     fst (mutex_of ebuild_betty (pr_run [] :: (nat, string) process)) \<and>
   length (mx_awaiting (mutexes (pr_run [Generate ebuild_betty 7, Generate ebuild_betty 8]
     :: (nat, string) process) ! 0)) \<le> 1"
proof -
  have h: "CHR '':'' \<notin> set (board ebuild_betty) \<and> CHR '':'' \<notin> set (board ebuild_eve) \<and>
    CHR '':'' \<notin> set (qualifiedPackageName ebuild_betty) \<and>
    CHR '':'' \<notin> set (qualifiedPackageName ebuild_eve) \<and>
    (board ebuild_betty \<noteq> board ebuild_eve \<or>
     qualifiedPackageName ebuild_betty \<noteq> qualifiedPackageName ebuild_eve \<or>
     sourceRoot ebuild_betty \<noteq> sourceRoot ebuild_eve)"
    by (simp add: ebuild_betty_def ebuild_eve_def)
  have len: "0 < length (mutexes (pr_run [Generate ebuild_betty 7, Generate ebuild_betty 8]
     :: (nat, string) process))"
    by (simp add: pr_run_def pr_init_def generate_def mutex_of_def mutex_key_def Let_def
        ebuild_betty_def)
  note A = compdb_mutex_keying [where ?e1.0 = ebuild_betty and ?e2.0 = ebuild_betty
      and evs = "[] :: (nat, string) pr_event list" and evs' = "[Generate ebuild_eve 7]" and j = 7]
  note B = compdb_mutex_keying [where ?e1.0 = ebuild_betty and ?e2.0 = ebuild_eve
      and evs = "[] :: (nat, string) pr_event list" and evs' = "[Generate ebuild_eve 7]" and j = 7]
  note C = compdb_mutex_keying [where ?e1.0 = ebuild_betty and ?e2.0 = ebuild_eve
      and evs = "[Generate ebuild_betty 7, Generate ebuild_betty 8] :: (nat, string) pr_event list"
      and evs' = "[]" and j = 7]
  from A have a: "fst (mutex_of ebuild_betty
     (foldl pr_step (snd (mutex_of ebuild_betty (pr_run [] :: (nat, string) process)))
        [Generate ebuild_eve 7])) =
     fst (mutex_of ebuild_betty (pr_run [] :: (nat, string) process))" by blast
  from B h have b: "fst (mutex_of ebuild_eve
     (foldl pr_step (snd (mutex_of ebuild_betty (pr_run [] :: (nat, string) process)))
        [Generate ebuild_eve 7])) \<noteq>
     fst (mutex_of ebuild_betty (pr_run [] :: (nat, string) process))" by blast
  from C len have c: "length (mx_awaiting (mutexes (pr_run [Generate ebuild_betty 7,
     Generate ebuild_betty 8] :: (nat, string) process) ! 0)) \<le> 1" by blast
  have d: "board ebuild_betty \<noteq> board ebuild_eve" by (simp add: ebuild_betty_def ebuild_eve_def)
  from a b c d h show ?thesis by blast
qed

subsection \<open>Cache removal and artifact selection\<close>

text \<open>
  The two file systems \<^verbatim>\<open>crosFs.chroot\<close> and \<^verbatim>\<open>crosFs.out\<close>, the \<^verbatim>\<open>CompdbError\<close> kinds
  the class raises, and what a \<^verbatim>\<open>throw\<close> can carry (\<^verbatim>\<open>firstError\<close> has type
  \<^verbatim>\<open>Error | undefined\<close>).  Node's \<^verbatim>\<open>path.join\<close> and the file systems' \<^verbatim>\<open>rm\<close> and
  \<^verbatim>\<open>stat\<close> are parameters: \<open>rm fs file\<close> is \<open>None\<close> when the removal succeeds and
  the error otherwise; \<open>stat fs file\<close> is the modification time in milliseconds since
  the epoch, or \<open>None\<close> when \<^verbatim>\<open>stat\<close> throws.  The lines written to the output channel
  are left out.
\<close>

datatype fsroot = ChrootFs | OutFs

datatype compdb_error = RemoveCache string string | RunEbuild string

datatype thrown = ThrownError compdb_error | ThrownUndefined

definition portageBuildDir :: "(string list \<Rightarrow> string) \<Rightarrow> ebuild \<Rightarrow> string" where
  "portageBuildDir join e = join [sysroot e, ''tmp/portage'', qualifiedPackageName e @ ''-9999'']"

definition buildDirs :: "(string list \<Rightarrow> string) \<Rightarrow> ebuild \<Rightarrow> string list" where
  "buildDirs join e =
     [join [sysroot e, ''var/cache/portage'', qualifiedPackageName e],
      join [portageBuildDir join e, ''work'', ''build''],
      join [portageBuildDir join e]]"

text \<open>The body of the inner loop of \<^verbatim>\<open>removeCache\<close>: the \<^verbatim>\<open>try\<close> block removes the two
  marker files and sets \<^verbatim>\<open>hasRemovedCache\<close>; the \<^verbatim>\<open>catch\<close> block assigns
  \<^verbatim>\<open>firstError\<close>.\<close>

definition try_remove ::
  "(string list \<Rightarrow> string) \<Rightarrow> (fsroot \<Rightarrow> string \<Rightarrow> string option) \<Rightarrow> string \<Rightarrow>
   compdb_error option \<times> bool \<Rightarrow> fsroot \<Rightarrow> compdb_error option \<times> bool" where
  "try_remove join rm dir st fs =
     (case rm fs (join [dir, ''.configured'']) of
        Some e \<Rightarrow> (Some (RemoveCache (join [dir, ''.configured'']) e), snd st)
      | None \<Rightarrow>
          (case rm fs (join [dir, ''.compiled'']) of
             Some e \<Rightarrow> (Some (RemoveCache (join [dir, ''.compiled'']) e), snd st)
           | None \<Rightarrow> (fst st, True)))"

text \<open>The outer loop of \<^verbatim>\<open>removeCache\<close>, over the build directories.\<close>

fun removeCacheDirs ::
  "(string list \<Rightarrow> string) \<Rightarrow> (fsroot \<Rightarrow> string \<Rightarrow> string option) \<Rightarrow> string list \<Rightarrow>
   thrown + unit" where
  "removeCacheDirs join rm [] = Inr ()"
| "removeCacheDirs join rm (dir # dirs) =
     (let (firstError, hasRemovedCache) =
            foldl (try_remove join rm dir) (None, False) [ChrootFs, OutFs]
      in if \<not> hasRemovedCache
         then Inl (case firstError of None \<Rightarrow> ThrownUndefined | Some err \<Rightarrow> ThrownError err)
         else removeCacheDirs join rm dirs)"

definition removeCache ::
  "(string list \<Rightarrow> string) \<Rightarrow> (fsroot \<Rightarrow> string \<Rightarrow> string option) \<Rightarrow> ebuild \<Rightarrow> thrown + unit" where
  "removeCache join rm e = removeCacheDirs join rm (buildDirs join e)"

text \<open>\<^verbatim>\<open>artifactPath\<close>: the candidates are pairs of modification time and artifact, pushed
  in the order of the two loops; \<^verbatim>\<open>candidates.sort()\<close> has no comparison function, so
  it orders the pairs by their conversion to strings (the date as \<^verbatim>\<open>Date.toString\<close>
  prints it, a comma, and \<^verbatim>\<open>[object Object]\<close>), keeping equal ones in place;
  \<^verbatim>\<open>pop()\<close> takes the last.  The conversion of a date to a string is a parameter.\<close>

record artifact =
  baseDir :: string
  path :: string

definition root_of :: "ebuild \<Rightarrow> fsroot \<Rightarrow> string" where
  "root_of e fs = (case fs of ChrootFs \<Rightarrow> chrootRoot e | OutFs \<Rightarrow> outRoot e)"

definition try_stat ::
  "(fsroot \<Rightarrow> string \<Rightarrow> int option) \<Rightarrow> ebuild \<Rightarrow> string \<Rightarrow> (int \<times> artifact) list \<Rightarrow> fsroot \<Rightarrow>
   (int \<times> artifact) list" where
  "try_stat stat e file candidates fs =
     (case stat fs file of
        Some mtime \<Rightarrow> candidates @ [(mtime, \<lparr>baseDir = root_of e fs, path = file\<rparr>)]
      | None \<Rightarrow> candidates)"

definition find_candidates ::
  "(string list \<Rightarrow> string) \<Rightarrow> (fsroot \<Rightarrow> string \<Rightarrow> int option) \<Rightarrow> ebuild \<Rightarrow> (int \<times> artifact) list" where
  "find_candidates join stat e =
     foldl (\<lambda>candidates dir.
        foldl (try_stat stat e (join [dir, ''out/Default/compile_commands_no_chroot.json'']))
          candidates [ChrootFs, OutFs])
       [] (buildDirs join e)"

definition candidate_string :: "(int \<Rightarrow> string) \<Rightarrow> int \<times> artifact \<Rightarrow> string" where
  "candidate_string dateToString c = dateToString (fst c) @ '','' @ ''[object Object]''"

definition artifactPath ::
  "(string list \<Rightarrow> string) \<Rightarrow> (fsroot \<Rightarrow> string \<Rightarrow> int option) \<Rightarrow> (int \<Rightarrow> string) \<Rightarrow> ebuild \<Rightarrow>
   artifact option" where
  "artifactPath join stat dateToString e =
     (let candidates = find_candidates join stat e
      in if length candidates = 0 then None
         else Some (snd (last (sort_key (candidate_string dateToString) candidates))))"

subsection \<open>Stand-ins for the built-in functions in concrete runs\<close>

text \<open>
  \<^verbatim>\<open>path.join\<close> is Node's.  On segments that are already normalised, as all segments
  below are, it joins them with a slash, and \<open>slash_join\<close> is that.
\<close>

definition slash_join :: "string list \<Rightarrow> string" where
  "slash_join parts = (case parts of [] \<Rightarrow> ''.'' | p # rest \<Rightarrow> foldl (\<lambda>acc x. acc @ ''/'' @ x) p rest)"

text \<open>
  \<^verbatim>\<open>Date.prototype.toString\<close> is JavaScript's.  \<open>utc_date_string\<close> prints a time value
  (milliseconds since the epoch) as ECMAScript prescribes: weekday, month, day, year,
  time of day, offset and zone name, here for a process whose time zone is UTC.
\<close>

definition pad2 :: "int \<Rightarrow> string" where
  "pad2 n = [''0123456789'' ! nat (n div 10 mod 10), ''0123456789'' ! nat (n mod 10)]"

definition pad4 :: "int \<Rightarrow> string" where
  "pad4 n = (if n < 10000 then pad2 (n div 100) @ pad2 (n mod 100) else show_nat (nat n))"

definition year_month_day :: "int \<Rightarrow> int \<times> int \<times> int" where
  "year_month_day days =
     (let z = days + 719468;
          era = z div 146097;
          doe = z - era * 146097;
          yoe = (doe - doe div 1460 + doe div 36524 - doe div 146096) div 365;
          doy = doe - (365 * yoe + yoe div 4 - yoe div 100);
          mp = (5 * doy + 2) div 153;
          d = doy - (153 * mp + 2) div 5 + 1;
          m = (if mp < 10 then mp + 3 else mp - 9);
          y = yoe + era * 400 + (if m \<le> 2 then 1 else 0)
      in (y, m, d))"

definition utc_date_string :: "int \<Rightarrow> string" where
  "utc_date_string t =
     (let days = t div 86400000;
          ms = t mod 86400000;
          (y, m, d) = year_month_day days
      in [''Sun'', ''Mon'', ''Tue'', ''Wed'', ''Thu'', ''Fri'', ''Sat''] ! nat ((days + 4) mod 7) @ '' '' @
         [''Jan'', ''Feb'', ''Mar'', ''Apr'', ''May'', ''Jun'', ''Jul'', ''Aug'', ''Sep'', ''Oct'',
          ''Nov'', ''Dec''] ! nat (m - 1) @ '' '' @
         pad2 d @ '' '' @ (if y < 0 then ''-'' else []) @ pad4 (abs y) @ '' '' @
         pad2 (ms div 3600000) @ '':'' @ pad2 (ms div 60000 mod 60) @ '':'' @
         pad2 (ms div 1000 mod 60) @ '' GMT+0000 (Coordinated Universal Time)'')"

text \<open>A file system where every removal is denied, with an error that names the root; and
  one where the artifact of the first build directory exists under both roots, written
  on Friday 3 January 2025 under the chroot and on Wednesday 1 January 2025 under out.\<close>

definition rm_denied :: "fsroot \<Rightarrow> string \<Rightarrow> string option" where
  "rm_denied fs file =
     Some (case fs of ChrootFs \<Rightarrow> ''EACCES through chroot'' | OutFs \<Rightarrow> ''EACCES through out'')"

definition stat_two :: "fsroot \<Rightarrow> string \<Rightarrow> int option" where
  "stat_two fs file =
     (if file = ''/build/betty/var/cache/portage/chromeos-base/codelab/out/Default/compile_commands_no_chroot.json''
      then (case fs of ChrootFs \<Rightarrow> Some 1735862400000 | OutFs \<Rightarrow> Some 1735689600000)
      else None)"

lemma date_friday:
  "utc_date_string 1735862400000 = ''Fri Jan 03 2025 00:00:00 GMT+0000 (Coordinated Universal Time)''"
  by code_simp

lemma date_wednesday:
  "utc_date_string 1735689600000 = ''Wed Jan 01 2025 00:00:00 GMT+0000 (Coordinated Universal Time)''"
  by code_simp

subsection \<open>What the two functions do in general\<close>

lemma removeCache_tolerates_chroot_failure:
  assumes "rm OutFs (join [dir, ''.configured'']) = None"
    and "rm OutFs (join [dir, ''.compiled'']) = None"
  shows "removeCacheDirs join rm (dir # dirs) = removeCacheDirs join rm dirs"
  using assms by (simp add: try_remove_def split: option.splits)

lemma removeCache_tolerates_out_failure:
  assumes "rm ChrootFs (join [dir, ''.configured'']) = None"
    and "rm ChrootFs (join [dir, ''.compiled'']) = None"
  shows "removeCacheDirs join rm (dir # dirs) = removeCacheDirs join rm dirs"
  using assms by (simp add: try_remove_def split: option.splits)

lemma removeCache_both_fail:
  assumes "rm ChrootFs (join [dir, ''.configured'']) = Some e1"
    and "rm OutFs (join [dir, ''.configured'']) = Some e2"
  shows "removeCacheDirs join rm (dir # dirs) =
     Inl (ThrownError (RemoveCache (join [dir, ''.configured'']) e2))"
  using assms by (simp add: try_remove_def)

lemma artifactPath_no_candidate:
  assumes "\<And>fs file. stat fs file = None"
  shows "artifactPath join stat dateToString e = None"
  using assms by (simp add: artifactPath_def find_candidates_def buildDirs_def try_stat_def)

text \<open>
  C8 at a package whose marker files can be removed through neither root: the error
  raised is the one met last (through out), not the one met first (through the chroot).
\<close>

theorem removeCache_raises_last_error:
  "removeCache slash_join rm_denied ebuild_betty =
     Inl (ThrownError (RemoveCache
       ''/build/betty/var/cache/portage/chromeos-base/codelab/.configured''
       ''EACCES through out''))"
  by code_simp

text \<open>
  C9 at a package with two candidates: the artifact returned is the one under out,
  modified on Wednesday, although the one under the chroot was modified two days later,
  on Friday: as strings, \<open>Wed ...\<close> sorts after \<open>Fri ...\<close>.
\<close>

theorem artifactPath_picks_older:
  "(1735689600000 :: int) < 1735862400000 \<and>
   find_candidates slash_join stat_two ebuild_betty =
     [(1735862400000, \<lparr>baseDir = ''/cros/chroot'',
         path = ''/build/betty/var/cache/portage/chromeos-base/codelab/out/Default/compile_commands_no_chroot.json''\<rparr>),
      (1735689600000, \<lparr>baseDir = ''/cros/out'',
         path = ''/build/betty/var/cache/portage/chromeos-base/codelab/out/Default/compile_commands_no_chroot.json''\<rparr>)] \<and>
   artifactPath slash_join stat_two utc_date_string ebuild_betty =
     Some \<lparr>baseDir = ''/cros/out'',
       path = ''/build/betty/var/cache/portage/chromeos-base/codelab/out/Default/compile_commands_no_chroot.json''\<rparr>"
  by code_simp

end

